theory Spec2Isabelle
  imports Main "HOL-Library.AList"
begin

section \<open>JavaScript containers\<close>

text \<open>
  A JavaScript \<^verbatim>\<open>Map<string, V>\<close> is an insertion-ordered association with one binding
  per key.  It is modelled as an association list: \<^verbatim>\<open>map.set\<close> overwrites the binding of a
  present key in place and appends a new key at the end, \<^verbatim>\<open>map.delete\<close> removes the
  binding, \<^verbatim>\<open>map.size\<close> is the number of bindings.
\<close>

type_synonym ('k, 'v) jsmap = "('k \<times> 'v) list"

definition Map_get :: "('k, 'v) jsmap \<Rightarrow> 'k \<Rightarrow> 'v option" where
  "Map_get m k = map_of m k"

definition Map_has :: "('k, 'v) jsmap \<Rightarrow> 'k \<Rightarrow> bool" where
  "Map_has m k = (map_of m k \<noteq> None)"

definition Map_set :: "('k, 'v) jsmap \<Rightarrow> 'k \<Rightarrow> 'v \<Rightarrow> ('k, 'v) jsmap" where
  "Map_set m k v = AList.update k v m"

definition Map_delete :: "('k, 'v) jsmap \<Rightarrow> 'k \<Rightarrow> ('k, 'v) jsmap" where
  "Map_delete m k = AList.delete k m"

definition Map_size :: "('k, 'v) jsmap \<Rightarrow> int" where
  "Map_size m = int (length m)"

definition Map_keys :: "('k, 'v) jsmap \<Rightarrow> 'k list" where
  "Map_keys m = map fst m"

section \<open>The sliding-window rate limiter (src/utils/rate-limiter.ts)\<close>

text \<open>
  Times are the integer milliseconds of \<^verbatim>\<open>Date.now()\<close>; every operation that reads the
  clock takes the reading as its argument \<open>now\<close>.  The fields of a
  \<^verbatim>\<open>RateLimitEntry\<close> carry the suffix \<open>_rl\<close> because the cache entry below has a
  \<^verbatim>\<open>timestamp\<close> field too.
\<close>

record RateLimitEntry =
  timestamp_rl :: int
  count_rl :: int

record RateLimiter =
  requests :: "(string, RateLimitEntry list) jsmap"
  maxRequests :: int
  windowMs :: int

definition RateLimiter_new :: "int \<Rightarrow> int \<Rightarrow> RateLimiter" where
  "RateLimiter_new maxReq win = \<lparr>requests = [], maxRequests = maxReq, windowMs = win\<rparr>"

text \<open>\<^verbatim>\<open>this.requests.get(key) || []\<close>\<close>

definition entries_of :: "RateLimiter \<Rightarrow> string \<Rightarrow> RateLimitEntry list" where
  "entries_of rl key = (case Map_get (requests rl) key of None \<Rightarrow> [] | Some es \<Rightarrow> es)"

text \<open>\<^verbatim>\<open>entries.filter((entry) => entry.timestamp > windowStart)\<close>\<close>

definition validEntries :: "RateLimiter \<Rightarrow> string \<Rightarrow> int \<Rightarrow> RateLimitEntry list" where
  "validEntries rl key now =
     (let windowStart = now - windowMs rl
      in filter (\<lambda>entry. timestamp_rl entry > windowStart) (entries_of rl key))"

text \<open>\<^verbatim>\<open>entries.reduce((sum, entry) => sum + entry.count, 0)\<close>\<close>

definition totalRequests :: "RateLimitEntry list \<Rightarrow> int" where
  "totalRequests entries = foldl (\<lambda>sum entry. sum + count_rl entry) 0 entries"

definition isAllowed :: "RateLimiter \<Rightarrow> string \<Rightarrow> int \<Rightarrow> bool \<times> RateLimiter" where
  "isAllowed rl key now =
     (let entries = validEntries rl key now;
          allowed = totalRequests entries < maxRequests rl
      in if allowed
         then (True, rl\<lparr>requests :=
                 Map_set (requests rl) key (entries @ [\<lparr>timestamp_rl = now, count_rl = 1\<rparr>])\<rparr>)
         else (False, rl))"

definition getRemaining :: "RateLimiter \<Rightarrow> string \<Rightarrow> int \<Rightarrow> int" where
  "getRemaining rl key now = max 0 (maxRequests rl - totalRequests (validEntries rl key now))"

text \<open>
  \<^verbatim>\<open>entries.reduce((oldest, current) => current.timestamp < oldest.timestamp ? current : oldest)\<close>
  has no initial value: it starts from the first element, and is only reached on a
  non-empty array.
\<close>

definition oldestEntry :: "RateLimitEntry \<Rightarrow> RateLimitEntry list \<Rightarrow> RateLimitEntry" where
  "oldestEntry first rest =
     foldl (\<lambda>oldest current. if timestamp_rl current < timestamp_rl oldest then current else oldest)
       first rest"

definition getResetTime :: "RateLimiter \<Rightarrow> string \<Rightarrow> int \<Rightarrow> int" where
  "getResetTime rl key now =
     (case entries_of rl key of
        [] \<Rightarrow> now
      | e # es \<Rightarrow> timestamp_rl (oldestEntry e es) + windowMs rl)"

definition reset :: "RateLimiter \<Rightarrow> string \<Rightarrow> RateLimiter" where
  "reset rl key = rl\<lparr>requests := Map_delete (requests rl) key\<rparr>"

record RateLimitInfo =
  remaining :: int
  resetTime :: int
  limit :: int
  info_windowMs :: int

definition getInfo :: "RateLimiter \<Rightarrow> string \<Rightarrow> int \<Rightarrow> RateLimitInfo" where
  "getInfo rl key now =
     \<lparr>remaining = getRemaining rl key now,
      resetTime = getResetTime rl key now,
      limit = maxRequests rl,
      info_windowMs = windowMs rl\<rparr>"

definition limiter_clear :: "RateLimiter \<Rightarrow> RateLimiter" where
  "limiter_clear rl = rl\<lparr>requests := []\<rparr>"

text \<open>
  The periodic sweep: a key whose entries have all left the window is dropped, the others
  keep their surviving entries.  The loop visits each binding once.
\<close>

definition limiter_cleanupExpired :: "RateLimiter \<Rightarrow> int \<Rightarrow> RateLimiter" where
  "limiter_cleanupExpired rl now =
     (let windowStart = now - windowMs rl;
          swept = map (\<lambda>(key, entries).
                    (key, filter (\<lambda>entry. timestamp_rl entry > windowStart) entries)) (requests rl)
      in rl\<lparr>requests := filter (\<lambda>(key, valid). valid \<noteq> []) swept\<rparr>)"

text \<open>
  Every entry the limiter ever stores is written by \<open>isAllowed\<close> with \<^verbatim>\<open>count: 1\<close>.
\<close>

definition unit_counts :: "RateLimiter \<Rightarrow> bool" where
  "unit_counts rl = (\<forall>(key, entries) \<in> set (requests rl). \<forall>entry \<in> set entries. count_rl entry = 1)"

text \<open>No stored record is longer than the limit allows.\<close>

definition within_limit :: "RateLimiter \<Rightarrow> bool" where
  "within_limit rl =
     (\<forall>(key, entries) \<in> set (requests rl). int (length entries) \<le> max 0 (maxRequests rl))"

text \<open>
  A call sequence on one limiter: each call carries the clock reading it is made at.
\<close>

datatype limiter_call =
    IsAllowed string int
  | Reset string
  | Clear
  | CleanupExpired int

fun limiter_step :: "RateLimiter \<Rightarrow> limiter_call \<Rightarrow> RateLimiter" where
  "limiter_step rl (IsAllowed key now) = snd (isAllowed rl key now)"
| "limiter_step rl (Reset key) = reset rl key"
| "limiter_step rl Clear = limiter_clear rl"
| "limiter_step rl (CleanupExpired now) = limiter_cleanupExpired rl now"

definition limiter_run :: "RateLimiter \<Rightarrow> limiter_call list \<Rightarrow> RateLimiter" where
  "limiter_run rl calls = foldl limiter_step rl calls"

text \<open>The answers of a sequence of admission checks, in order.\<close>

fun admissions :: "RateLimiter \<Rightarrow> (string \<times> int) list \<Rightarrow> bool list" where
  "admissions rl [] = []"
| "admissions rl ((key, now) # calls) =
     fst (isAllowed rl key now) # admissions (snd (isAllowed rl key now)) calls"

section \<open>The in-memory cache with TTL and LRU eviction (src/utils/cache.ts)\<close>

record 'v CacheEntry =
  data :: 'v
  timestamp :: int
  ttl :: int

text \<open>
  The object state of \<^verbatim>\<open>InMemoryCache\<close>.  \<open>get\<close> returns \<^verbatim>\<open>T | null\<close>: the model
  returns \<open>None\<close> for \<^verbatim>\<open>null\<close>.  The background interval only calls
  \<open>cleanupExpired\<close>, which is an operation of its own here.
\<close>

record 'v InMemoryCache =
  cache :: "(string, 'v CacheEntry) jsmap"
  accessOrder :: "string list"
  maxSize :: int
  defaultTtl :: int
  hitCount :: nat
  missCount :: nat
  evictionCount :: nat

definition InMemoryCache_new :: "int \<Rightarrow> int \<Rightarrow> 'v InMemoryCache" where
  "InMemoryCache_new maxSz dflt =
     \<lparr>cache = [], accessOrder = [], maxSize = maxSz, defaultTtl = dflt,
      hitCount = 0, missCount = 0, evictionCount = 0\<rparr>"

text \<open>
  \<^verbatim>\<open>indexOf(key)\<close> followed by \<^verbatim>\<open>splice(index, 1)\<close> when the index is found removes the
  first occurrence of the key: \<open>remove1\<close>.
\<close>

definition cache_delete :: "'v InMemoryCache \<Rightarrow> string \<Rightarrow> bool \<times> 'v InMemoryCache" where
  "cache_delete c key =
     (let existed = Map_has (cache c) key
      in if existed
         then (existed, c\<lparr>cache := Map_delete (cache c) key,
                          accessOrder := remove1 key (accessOrder c)\<rparr>)
         else (existed, c))"

definition updateAccessOrder :: "'v InMemoryCache \<Rightarrow> string \<Rightarrow> 'v InMemoryCache" where
  "updateAccessOrder c key = c\<lparr>accessOrder := remove1 key (accessOrder c) @ [key]\<rparr>"

text \<open>
  \<^verbatim>\<open>shift()\<close> removes the first key of the recency list before the test
  \<^verbatim>\<open>if (!oldestKey) return\<close>, and the empty string is falsy: when the oldest key is
  \<^verbatim>\<open>""\<close> the list loses it and the store keeps its entry.
\<close>

definition evictLRU :: "'v InMemoryCache \<Rightarrow> 'v InMemoryCache" where
  "evictLRU c =
     (case accessOrder c of
        [] \<Rightarrow> c
      | oldestKey # rest \<Rightarrow>
          (let c1 = c\<lparr>accessOrder := rest\<rparr>
           in if oldestKey = [] then c1
              else c1\<lparr>cache := Map_delete (cache c1) oldestKey,
                       evictionCount := evictionCount c1 + 1\<rparr>))"

text \<open>
  \<^verbatim>\<open>ttl || this.defaultTtl\<close>: an omitted ttl (\<open>None\<close>) and a ttl of \<open>0\<close> are both
  falsy and select the default.
\<close>

definition entryTtl :: "'v InMemoryCache \<Rightarrow> int option \<Rightarrow> int" where
  "entryTtl c t = (case t of None \<Rightarrow> defaultTtl c | Some n \<Rightarrow> if n = 0 then defaultTtl c else n)"

definition cache_set ::
  "'v InMemoryCache \<Rightarrow> string \<Rightarrow> 'v \<Rightarrow> int option \<Rightarrow> int \<Rightarrow> 'v InMemoryCache" where
  "cache_set c key value t now =
     (let c1 = snd (cache_delete c key);
          entry = \<lparr>data = value, timestamp = now, ttl = entryTtl c t\<rparr>;
          c2 = c1\<lparr>cache := Map_set (cache c1) key entry,
                   accessOrder := accessOrder c1 @ [key]\<rparr>
      in if Map_size (cache c2) > maxSize c2 then evictLRU c2 else c2)"

definition isExpired :: "'v CacheEntry \<Rightarrow> int \<Rightarrow> bool" where
  "isExpired entry now = (now - timestamp entry > ttl entry)"

definition cache_get :: "'v InMemoryCache \<Rightarrow> string \<Rightarrow> int \<Rightarrow> 'v option \<times> 'v InMemoryCache" where
  "cache_get c key now =
     (case Map_get (cache c) key of
        None \<Rightarrow> (None, c)
      | Some entry \<Rightarrow>
          if isExpired entry now then (None, snd (cache_delete c key))
          else (Some (data entry), updateAccessOrder c key))"

definition cache_has :: "'v InMemoryCache \<Rightarrow> string \<Rightarrow> int \<Rightarrow> bool \<times> 'v InMemoryCache" where
  "cache_has c key now =
     (case Map_get (cache c) key of
        None \<Rightarrow> (False, c)
      | Some entry \<Rightarrow>
          if isExpired entry now then (False, snd (cache_delete c key))
          else (True, c))"

definition cache_clear :: "'v InMemoryCache \<Rightarrow> 'v InMemoryCache" where
  "cache_clear c = c\<lparr>cache := [], accessOrder := []\<rparr>"

definition cache_keys :: "'v InMemoryCache \<Rightarrow> string list" where
  "cache_keys c = Map_keys (cache c)"

definition cache_size :: "'v InMemoryCache \<Rightarrow> int" where
  "cache_size c = Map_size (cache c)"

definition cache_cleanupExpired :: "'v InMemoryCache \<Rightarrow> int \<Rightarrow> 'v InMemoryCache" where
  "cache_cleanupExpired c now =
     (let expiredKeys = map fst (filter (\<lambda>(key, entry). isExpired entry now) (cache c))
      in foldl (\<lambda>c' key. snd (cache_delete c' key)) c expiredKeys)"

text \<open>\<^verbatim>\<open>CacheUtils.invalidatePattern\<close>: delete every key that contains the pattern.\<close>

fun str_includes :: "string \<Rightarrow> string \<Rightarrow> bool" where
  "str_includes [] pat = (pat = [])"
| "str_includes (x # xs) pat = (take (length pat) (x # xs) = pat \<or> str_includes xs pat)"

definition invalidatePattern :: "'v InMemoryCache \<Rightarrow> string \<Rightarrow> nat \<times> 'v InMemoryCache" where
  "invalidatePattern c pat =
     (let matchingKeys = filter (\<lambda>key. str_includes key pat) (cache_keys c)
      in foldl (\<lambda>(invalidatedCount, c') key.
                  (let (existed, c'') = cache_delete c' key
                   in (if existed then invalidatedCount + 1 else invalidatedCount, c'')))
           (0, c) matchingKeys)"

text \<open>A sequence of calls on one cache, each with the clock reading it is made at.\<close>

datatype 'v cache_call =
    Set string 'v "int option" int
  | Get string int
  | Has string int
  | Delete string
  | ClearCache
  | SweepExpired int

fun cache_step :: "'v InMemoryCache \<Rightarrow> 'v cache_call \<Rightarrow> 'v InMemoryCache" where
  "cache_step c (Set key value t now) = cache_set c key value t now"
| "cache_step c (Get key now) = snd (cache_get c key now)"
| "cache_step c (Has key now) = snd (cache_has c key now)"
| "cache_step c (Delete key) = snd (cache_delete c key)"
| "cache_step c ClearCache = cache_clear c"
| "cache_step c (SweepExpired now) = cache_cleanupExpired c now"

definition cache_run :: "'v InMemoryCache \<Rightarrow> 'v cache_call list \<Rightarrow> 'v InMemoryCache" where
  "cache_run c calls = foldl cache_step c calls"

text \<open>
  The bookkeeping of the cache is consistent when the store has one binding per key and
  the recency list holds exactly the stored keys, each once.
\<close>

definition consistent :: "'v InMemoryCache \<Rightarrow> bool" where
  "consistent c =
     (distinct (Map_keys (cache c)) \<and> distinct (accessOrder c) \<and>
      set (accessOrder c) = set (Map_keys (cache c)))"

text \<open>
  The state the cache is meant to keep: consistent bookkeeping, no empty-string key in
  the recency list, and no more entries than the maximum size.
\<close>

definition well_kept :: "'v InMemoryCache \<Rightarrow> bool" where
  "well_kept c = (consistent c \<and> [] \<notin> set (accessOrder c) \<and> cache_size c \<le> maxSize c)"

fun stores_nonempty_key :: "'v cache_call \<Rightarrow> bool" where
  "stores_nonempty_key (Set key value t now) = (key \<noteq> [])"
| "stores_nonempty_key call = True"

section \<open>JavaScript values\<close>

text \<open>
  The payloads that cross the client are JSON values.  Truthiness, property access (with
  and without optional chaining) and string conversion follow the language.
\<close>

datatype jsval =
    JUndefined
  | JNull
  | JBool bool
  | JNum int
  | JStr string
  | JObj "(string \<times> jsval) list"

fun truthy :: "jsval \<Rightarrow> bool" where
  "truthy JUndefined = False"
| "truthy JNull = False"
| "truthy (JBool b) = b"
| "truthy (JNum n) = (n \<noteq> 0)"
| "truthy (JStr s) = (s \<noteq> [])"
| "truthy (JObj props) = True"

text \<open>\<^verbatim>\<open>value?.name\<close>\<close>

fun opt_prop :: "jsval \<Rightarrow> string \<Rightarrow> jsval" where
  "opt_prop (JObj props) name = (case map_of props name of None \<Rightarrow> JUndefined | Some v \<Rightarrow> v)"
| "opt_prop v name = JUndefined"

text \<open>\<^verbatim>\<open>value.name\<close> throws a TypeError on \<^verbatim>\<open>null\<close> and \<^verbatim>\<open>undefined\<close>.\<close>

fun get_prop :: "jsval \<Rightarrow> string \<Rightarrow> string + jsval" where
  "get_prop JUndefined name = Inl (''Cannot read properties of undefined (reading '' @ name @ '')'')"
| "get_prop JNull name = Inl (''Cannot read properties of null (reading '' @ name @ '')'')"
| "get_prop v name = Inr (opt_prop v name)"

definition digit :: "nat \<Rightarrow> char" where
  "digit d = ''0123456789'' ! d"

fun show_nat :: "nat \<Rightarrow> string" where
  "show_nat n = (if n < 10 then [digit n] else show_nat (n div 10) @ [digit (n mod 10)])"

definition show_int :: "int \<Rightarrow> string" where
  "show_int i = (if i < 0 then CHR ''-'' # show_nat (nat (- i)) else show_nat (nat i))"

fun js_to_string :: "jsval \<Rightarrow> string" where
  "js_to_string JUndefined = ''undefined''"
| "js_to_string JNull = ''null''"
| "js_to_string (JBool b) = (if b then ''true'' else ''false'')"
| "js_to_string (JNum n) = show_int n"
| "js_to_string (JStr s) = s"
| "js_to_string (JObj props) = ''[object Object]''"

definition lower_char :: "char \<Rightarrow> char" where
  "lower_char c =
     (case map_of (zip ''ABCDEFGHIJKLMNOPQRSTUVWXYZ'' ''abcdefghijklmnopqrstuvwxyz'') c of
        None \<Rightarrow> c
      | Some l \<Rightarrow> l)"

definition toLowerCase :: "string \<Rightarrow> string" where
  "toLowerCase s = map lower_char s"

section \<open>Errors (src/types.ts)\<close>

datatype error_class = LinkLibraryError | AuthenticationError | ValidationError | RateLimitError

record AppError =
  error_class :: error_class
  message :: string
  statusCode :: int
  code :: "string option"

definition new_LinkLibraryError :: "string \<Rightarrow> int \<Rightarrow> AppError" where
  "new_LinkLibraryError msg status =
     \<lparr>error_class = LinkLibraryError, message = msg, statusCode = status, code = None\<rparr>"

definition new_AuthenticationError :: "string \<Rightarrow> AppError" where
  "new_AuthenticationError msg =
     \<lparr>error_class = AuthenticationError, message = msg, statusCode = 401,
      code = Some ''AUTH_ERROR''\<rparr>"

definition new_ValidationError :: "string \<Rightarrow> AppError" where
  "new_ValidationError msg =
     \<lparr>error_class = ValidationError, message = msg, statusCode = 400,
      code = Some ''VALIDATION_ERROR''\<rparr>"

definition new_RateLimitError :: "string \<Rightarrow> AppError" where
  "new_RateLimitError msg =
     \<lparr>error_class = RateLimitError, message = msg, statusCode = 429,
      code = Some ''RATE_LIMIT_ERROR''\<rparr>"

text \<open>
  The error object of the HTTP library: \<open>response\<close> is present when the server answered
  (status and body), \<open>err_code\<close> is the library's code for a failure without an answer.
\<close>

record AxiosError =
  response :: "(int \<times> jsval) option"
  err_code :: "string option"
  err_message :: string

text \<open>What a \<^verbatim>\<open>catch\<close> clause of this code can receive.\<close>

datatype thrown =
    App AppError
  | Axios AxiosError
  | TypeError string

section \<open>The API client (src/services/api-client.ts)\<close>

text \<open>\<^verbatim>\<open>data?.message || fallback\<close>, as the message of the error that is built.\<close>

definition message_or :: "jsval \<Rightarrow> string \<Rightarrow> string" where
  "message_or d fallback =
     (if truthy (opt_prop d ''message'') then js_to_string (opt_prop d ''message'') else fallback)"

definition handleApiError :: "AxiosError \<Rightarrow> AppError" where
  "handleApiError error =
     (case response error of
        Some (status, d) \<Rightarrow>
          (if status = 401 then new_AuthenticationError (message_or d ''Authentication failed'')
           else if status = 400 then new_ValidationError (message_or d ''Invalid request'')
           else if status = 429 then new_RateLimitError (message_or d ''Rate limit exceeded'')
           else if status = 500 then new_LinkLibraryError (message_or d ''Internal server error'') 500
           else new_LinkLibraryError (message_or d (''HTTP '' @ show_int status @ '' error'')) status)
      | None \<Rightarrow>
          (if err_code error = Some ''ECONNABORTED'' then new_LinkLibraryError ''Request timeout'' 408
           else if err_code error = Some ''ENOTFOUND''
             then new_LinkLibraryError ''Service unavailable'' 503
           else new_LinkLibraryError
                  (if err_message error \<noteq> [] then err_message error else ''Unknown error'') 500))"

text \<open>
  \<open>shouldRetry\<close> takes any caught value and reads \<^verbatim>\<open>error.response?.status\<close>.  Only the
  HTTP library's error object has a \<^verbatim>\<open>response\<close> property; on a
  \<^verbatim>\<open>LinkLibraryError\<close> or a \<^verbatim>\<open>TypeError\<close> the property is undefined, both comparisons
  with it are false and \<^verbatim>\<open>!error.response\<close> is true.
\<close>

fun response_of :: "thrown \<Rightarrow> (int \<times> jsval) option" where
  "response_of (Axios e) = response e"
| "response_of (App e) = None"
| "response_of (TypeError m) = None"

definition shouldRetry :: "thrown \<Rightarrow> bool" where
  "shouldRetry error =
     (case response_of error of
        Some (status, d) \<Rightarrow> if status \<ge> 400 \<and> status < 500 then status = 429 else status \<ge> 500
      | None \<Rightarrow> True)"

record RetryConfig =
  maxRetries :: int
  retryDelay :: int

text \<open>
  A request descriptor; \<open>http_method\<close> is the field \<^verbatim>\<open>config.method\<close>, and
  \<open>params_json\<close> is the text that \<^verbatim>\<open>config.params\<close> contributes to
  the cache key (\<^verbatim>\<open>JSON.stringify\<close> of the parameters, empty when there are none).
\<close>

record RequestConfig =
  http_method :: string
  url :: string
  params_json :: string

text \<open>
  The transport is outside the code: the outcome of the n-th dispatch and the time it
  takes are given by a script.  An answer with a status outside 200..299 and a failure
  without an answer both reject.
\<close>

datatype outcome =
    Responded int jsval
  | NoResponse "string option" string

text \<open>
  The process state: the clock, the transport script and the log of dispatched requests
  (each with the Authorization header it carried), the global cache and limiter, the token
  of the API client, and the user, refresh-timer handle and armed timers of the
  authentication service.
\<close>

record World =
  clock :: int
  transport :: "nat \<Rightarrow> outcome \<times> int"
  sent :: "(RequestConfig \<times> string option) list"
  globalCache :: "jsval InMemoryCache"
  globalRateLimiter :: RateLimiter
  currentToken :: jsval
  currentUser :: jsval
  tokenRefreshTimer :: "nat option"
  pendingTimers :: "(nat \<times> int) list"
  nextHandle :: nat

text \<open>The script of a transport that gives the same outcome, after the same time, to every dispatch.\<close>

definition always :: "outcome \<Rightarrow> int \<Rightarrow> nat \<Rightarrow> outcome \<times> int" where
  "always result duration n = (result, duration)"

definition World_new :: "int \<Rightarrow> int \<Rightarrow> int \<Rightarrow> int \<Rightarrow> (nat \<Rightarrow> outcome \<times> int) \<Rightarrow> World" where
  "World_new cacheMax cacheTtl rateMax rateWindow script =
     \<lparr>clock = 0, transport = script, sent = [],
      globalCache = InMemoryCache_new cacheMax cacheTtl,
      globalRateLimiter = RateLimiter_new rateMax rateWindow,
      currentToken = JNull, currentUser = JNull, tokenRefreshTimer = None,
      pendingTimers = [], nextHandle = 0\<rparr>"

definition apiClient_setToken :: "World \<Rightarrow> jsval \<Rightarrow> World" where
  "apiClient_setToken w token = w\<lparr>currentToken := token\<rparr>"

definition apiClient_clearToken :: "World \<Rightarrow> World" where
  "apiClient_clearToken w = w\<lparr>currentToken := JNull\<rparr>"

text \<open>
  \<^verbatim>\<open>this.client.request(config)\<close> with its interceptors: the request interceptor attaches
  the bearer token when there is one, the response interceptor rejects with
  \<open>handleApiError\<close> of the library's error.  The handler does not read the library's
  code and message when the error has a response.
\<close>

definition client_request :: "World \<Rightarrow> RequestConfig \<Rightarrow> (thrown + jsval) \<times> World" where
  "client_request w config =
     (let authorization =
            (if truthy (currentToken w) then Some (''Bearer '' @ js_to_string (currentToken w))
             else None);
          (result, duration) = transport w (length (sent w));
          w1 = w\<lparr>sent := sent w @ [(config, authorization)], clock := clock w + duration\<rparr>
      in case result of
           Responded status d \<Rightarrow>
             if 200 \<le> status \<and> status < 300 then (Inr d, w1)
             else (Inl (App (handleApiError
                     \<lparr>response = Some (status, d), err_code = None, err_message = []\<rparr>)), w1)
         | NoResponse c m \<Rightarrow>
             (Inl (App (handleApiError \<lparr>response = None, err_code = c, err_message = m\<rparr>)), w1))"

definition sleep :: "World \<Rightarrow> int \<Rightarrow> World" where
  "sleep w ms = w\<lparr>clock := clock w + ms\<rparr>"

function makeRequestWithRetry ::
  "RetryConfig \<Rightarrow> World \<Rightarrow> RequestConfig \<Rightarrow> nat \<Rightarrow> (thrown + jsval) \<times> World" where
  "makeRequestWithRetry rc w config attempt =
     (case client_request w config of
        (Inr d, w1) \<Rightarrow> (Inr d, w1)
      | (Inl error, w1) \<Rightarrow>
          if int attempt \<le> maxRetries rc \<and> shouldRetry error
          then (let delay = retryDelay rc * 2 ^ (attempt - 1)
                in makeRequestWithRetry rc (sleep w1 delay) config (attempt + 1))
          else (Inl error, w1))"
  by pat_completeness auto
termination
  by (relation "measure (\<lambda>(rc, w, config, attempt). nat (maxRetries rc + 1 - int attempt))") auto

fun generateKey :: "string list \<Rightarrow> string" where
  "generateKey [] = []"
| "generateKey [part] = part"
| "generateKey (part # parts) = part @ '':'' @ generateKey parts"

definition rateLimitKey :: "RequestConfig \<Rightarrow> string" where
  "rateLimitKey config = ''api:'' @ http_method config @ '':'' @ url config"

definition cacheKey :: "RequestConfig \<Rightarrow> string" where
  "cacheKey config = generateKey [''api'', http_method config, url config, params_json config]"

definition rateLimitMessage :: "RequestConfig \<Rightarrow> RateLimitInfo \<Rightarrow> string" where
  "rateLimitMessage config info =
     ''Rate limit exceeded for '' @ http_method config @ '' '' @ url config @ ''. '' @
     ''Limit: '' @ show_int (limit info) @ '' requests per '' @ show_int (info_windowMs info) @ ''ms.''"

definition request :: "RetryConfig \<Rightarrow> World \<Rightarrow> RequestConfig \<Rightarrow> (thrown + jsval) \<times> World" where
  "request rc w config =
     (let (allowed, rl) = isAllowed (globalRateLimiter w) (rateLimitKey config) (clock w);
          w0 = w\<lparr>globalRateLimiter := rl\<rparr>
      in if \<not> allowed
         then (let info = getInfo (globalRateLimiter w0) (rateLimitKey config) (clock w0)
               in (Inl (App (new_RateLimitError (rateLimitMessage config info))), w0))
         else
          (let (cachedResult, w1) =
                 (if toLowerCase (http_method config) = ''get''
                  then (let (found, c) = cache_get (globalCache w0) (cacheKey config) (clock w0)
                        in (case found of None \<Rightarrow> JNull | Some v \<Rightarrow> v, w0\<lparr>globalCache := c\<rparr>))
                  else (JNull, w0))
           in if toLowerCase (http_method config) = ''get'' \<and> truthy cachedResult
              then (Inr cachedResult, w1)
              else (case makeRequestWithRetry rc w1 config 1 of
                      (Inl error, w2) \<Rightarrow> (Inl error, w2)
                    | (Inr resp, w2) \<Rightarrow>
                        if toLowerCase (http_method config) = ''get'' \<and> truthy resp
                        then (Inr resp,
                              w2\<lparr>globalCache :=
                                   cache_set (globalCache w2) (cacheKey config) resp
                                     (Some 300000) (clock w2)\<rparr>)
                        else (Inr resp, w2))))"

definition post :: "RetryConfig \<Rightarrow> World \<Rightarrow> string \<Rightarrow> (thrown + jsval) \<times> World" where
  "post rc w path = request rc w \<lparr>http_method = ''POST'', url = path, params_json = []\<rparr>"

section \<open>The authentication service (src/services/auth-service.ts)\<close>

definition setToken :: "World \<Rightarrow> jsval \<Rightarrow> World" where
  "setToken w token =
     (let w1 = apiClient_setToken w token
      in w1\<lparr>globalCache :=
              cache_set (globalCache w1) ''auth:token'' token (Some 3600000) (clock w1)\<rparr>)"

definition clearTimeout :: "World \<Rightarrow> nat \<Rightarrow> World" where
  "clearTimeout w h = w\<lparr>pendingTimers := filter (\<lambda>(h', due). h' \<noteq> h) (pendingTimers w)\<rparr>"

text \<open>
  \<open>clearToken\<close> sets the user to \<^verbatim>\<open>null\<close> before it tests \<^verbatim>\<open>if (this.currentUser)\<close>, so
  the deletion of the cached user is never reached.
\<close>

definition clearToken :: "World \<Rightarrow> World" where
  "clearToken w =
     (let w1 = apiClient_clearToken w;
          w2 = w1\<lparr>currentUser := JNull\<rparr>;
          w3 = w2\<lparr>globalCache := snd (cache_delete (globalCache w2) ''auth:token'')\<rparr>;
          w4 = (if truthy (currentUser w3)
                then w3\<lparr>globalCache := snd (cache_delete (globalCache w3)
                        (''auth:user:'' @ js_to_string (opt_prop (currentUser w3) ''id'')))\<rparr>
                else w3)
      in case tokenRefreshTimer w4 of
           Some h \<Rightarrow> (clearTimeout w4 h)\<lparr>tokenRefreshTimer := None\<rparr>
         | None \<Rightarrow> w4)"

definition isAuthenticated :: "World \<Rightarrow> bool" where
  "isAuthenticated w = (currentUser w \<noteq> JNull)"

text \<open>
  The constructor: \<^verbatim>\<open>if (authConfig.token) this.setToken(authConfig.token)\<close>, on the
  field initialisers \<^verbatim>\<open>currentUser = null\<close> and \<^verbatim>\<open>tokenRefreshTimer = null\<close>.
\<close>

definition AuthService_new :: "World \<Rightarrow> string option \<Rightarrow> World" where
  "AuthService_new w envToken =
     (let w1 = w\<lparr>currentUser := JNull, tokenRefreshTimer := None\<rparr>
      in case envToken of
           None \<Rightarrow> w1
         | Some tok \<Rightarrow> if tok \<noteq> [] then setToken w1 (JStr tok) else w1)"

text \<open>
  \<open>refreshToken\<close>: everything inside the \<^verbatim>\<open>try\<close> block that throws, the request as well
  as a property read on a missing response or user, ends in the \<^verbatim>\<open>catch\<close> block, which
  clears the token and returns false.
\<close>

definition refreshToken :: "RetryConfig \<Rightarrow> World \<Rightarrow> bool \<times> World" where
  "refreshToken rc w =
     (case post rc w ''/auth/refresh'' of
        (Inl error, w1) \<Rightarrow> (False, clearToken w1)
      | (Inr resp, w1) \<Rightarrow>
          (case get_prop resp ''access_token'' of
             Inl m \<Rightarrow> (False, clearToken w1)
           | Inr token \<Rightarrow>
               (let w2 = setToken w1 token
                in case get_prop resp ''user'' of
                     Inl m \<Rightarrow> (False, clearToken w2)
                   | Inr user \<Rightarrow>
                       (let w3 = w2\<lparr>currentUser := user\<rparr>
                        in case get_prop user ''id'' of
                             Inl m \<Rightarrow> (False, clearToken w3)
                           | Inr uid \<Rightarrow> (True, w3)))))"

definition setTimeout :: "World \<Rightarrow> int \<Rightarrow> nat \<times> World" where
  "setTimeout w ms =
     (nextHandle w,
      w\<lparr>pendingTimers := pendingTimers w @ [(nextHandle w, clock w + ms)],
        nextHandle := nextHandle w + 1\<rparr>)"

definition setupTokenRefresh :: "World \<Rightarrow> World" where
  "setupTokenRefresh w =
     (let w1 = (case tokenRefreshTimer w of Some h \<Rightarrow> clearTimeout w h | None \<Rightarrow> w);
          (h, w2) = setTimeout w1 (55 * 60 * 1000)
      in w2\<lparr>tokenRefreshTimer := Some h\<rparr>)"

text \<open>
  The callback of the refresh timer, run when the armed timer \<open>h\<close> fires: a timer that
  fires is no longer pending.
\<close>

definition refreshTimerFires :: "RetryConfig \<Rightarrow> World \<Rightarrow> nat \<Rightarrow> World" where
  "refreshTimerFires rc w h =
     (let w0 = clearTimeout w h;
          (success, w1) = refreshToken rc w0
      in if success then setupTokenRefresh w1 else w1)"

definition timerArmed :: "World \<Rightarrow> bool" where
  "timerArmed w = (case tokenRefreshTimer w of
                     None \<Rightarrow> False
                   | Some h \<Rightarrow> h \<in> fst ` set (pendingTimers w))"

text \<open>The part of the state that only the authentication service writes.\<close>

definition auth_state :: "World \<Rightarrow> jsval \<times> jsval \<times> nat option \<times> (nat \<times> int) list \<times> nat" where
  "auth_state w = (currentToken w, currentUser w, tokenRefreshTimer w, pendingTimers w, nextHandle w)"

declare always_def [simp]

declare show_nat.simps [simp del]

declare makeRequestWithRetry.simps [simp del]

section \<open>Properties of the rate limiter\<close>

lemma Map_get_set: "Map_get (Map_set m k v) k' = (if k' = k then Some v else Map_get m k')"
  by (simp add: Map_get_def Map_set_def update_conv')

lemma Map_get_delete: "Map_get (Map_delete m k) k' = (if k' = k then None else Map_get m k')"
  by (simp add: Map_get_def Map_delete_def delete_conv')

lemma totalRequests_sum: "totalRequests es = sum_list (map count_rl es)"
proof -
  have "foldl (\<lambda>sum entry. sum + count_rl entry) a es = a + sum_list (map count_rl es)" for a
    by (induction es arbitrary: a) simp_all
  then show ?thesis by (simp add: totalRequests_def)
qed

lemma sum_unit_counts:
  "\<forall>e \<in> set es. count_rl e = 1 \<Longrightarrow> sum_list (map count_rl es) = int (length es)"
  by (induction es) simp_all

lemma entries_of_unit:
  assumes "unit_counts rl" and "e \<in> set (entries_of rl key)"
  shows "count_rl e = 1"
proof (cases "Map_get (requests rl) key")
  case None
  with assms(2) show ?thesis by (simp add: entries_of_def)
next
  case (Some es)
  then have "(key, es) \<in> set (requests rl)"
    by (simp add: Map_get_def map_of_SomeD)
  moreover from Some assms(2) have "e \<in> set es" by (simp add: entries_of_def)
  ultimately show ?thesis using assms(1) unfolding unit_counts_def by blast
qed

lemma validEntries_total:
  assumes "unit_counts rl"
  shows "totalRequests (validEntries rl key now) = int (length (validEntries rl key now))"
proof -
  have "\<forall>e \<in> set (validEntries rl key now). count_rl e = 1"
    using entries_of_unit [OF assms] by (auto simp: validEntries_def)
  then show ?thesis by (simp add: totalRequests_sum sum_unit_counts)
qed

lemma set_Map_set: "set (Map_set m k v) \<subseteq> insert (k, v) (set m)"
  unfolding Map_set_def by (induction m) auto

lemma set_Map_delete: "set (Map_delete m k) \<subseteq> set m"
  unfolding Map_delete_def by (induction m) auto

lemma unit_counts_new: "unit_counts (RateLimiter_new m w)"
  by (simp add: unit_counts_def RateLimiter_new_def)

lemma unit_counts_isAllowed:
  assumes "unit_counts rl"
  shows "unit_counts (snd (isAllowed rl key now))"
proof (cases "fst (isAllowed rl key now)")
  case False
  then have "snd (isAllowed rl key now) = rl"
    by (simp add: isAllowed_def Let_def split: if_splits)
  with assms show ?thesis by simp
next
  case True
  let ?es = "validEntries rl key now @ [\<lparr>timestamp_rl = now, count_rl = 1\<rparr>]"
  from True have eq: "requests (snd (isAllowed rl key now)) = Map_set (requests rl) key ?es"
    by (simp add: isAllowed_def Let_def split: if_splits)
  have new: "\<forall>e \<in> set ?es. count_rl e = 1"
    using entries_of_unit [OF assms] by (auto simp: validEntries_def)
  show ?thesis
    unfolding unit_counts_def eq
  proof (clarify)
    fix k es e
    assume "(k, es) \<in> set (Map_set (requests rl) key ?es)" and e: "e \<in> set es"
    then have "(k, es) = (key, ?es) \<or> (k, es) \<in> set (requests rl)"
      using set_Map_set [of "requests rl" key ?es] by auto
    then show "count_rl e = 1"
    proof
      assume "(k, es) = (key, ?es)"
      with e new show ?thesis by blast
    next
      assume "(k, es) \<in> set (requests rl)"
      with e assms show ?thesis unfolding unit_counts_def by blast
    qed
  qed
qed

lemma unit_counts_step:
  assumes "unit_counts rl"
  shows "unit_counts (limiter_step rl c)"
proof (cases c)
  case (IsAllowed key now)
  with assms show ?thesis by (simp add: unit_counts_isAllowed)
next
  case (Reset key)
  with assms set_Map_delete [of "requests rl" key] show ?thesis
    by (auto simp: unit_counts_def reset_def)
next
  case Clear
  then show ?thesis by (simp add: unit_counts_def limiter_clear_def)
next
  case (CleanupExpired now)
  with assms show ?thesis
    by (auto simp: unit_counts_def limiter_cleanupExpired_def Let_def)
qed

lemma unit_counts_run: "unit_counts rl \<Longrightarrow> unit_counts (limiter_run rl calls)"
  unfolding limiter_run_def
  by (induction calls arbitrary: rl) (simp_all add: unit_counts_step)

lemma limiter_step_config:
  "maxRequests (limiter_step rl c) = maxRequests rl \<and> windowMs (limiter_step rl c) = windowMs rl"
  by (cases c)
     (simp_all add: isAllowed_def Let_def reset_def limiter_clear_def limiter_cleanupExpired_def)

lemma limiter_run_config:
  "maxRequests (limiter_run rl calls) = maxRequests rl \<and>
   windowMs (limiter_run rl calls) = windowMs rl"
  unfolding limiter_run_def
  by (induction calls arbitrary: rl) (simp_all add: limiter_step_config)

lemma isAllowed_decision:
  assumes "unit_counts rl"
  shows "fst (isAllowed rl key now) = (int (length (validEntries rl key now)) < maxRequests rl)"
  using validEntries_total [OF assms, of key now] by (simp add: isAllowed_def Let_def)

lemma isAllowed_admitted:
  assumes "fst (isAllowed rl key now)"
  shows "entries_of (snd (isAllowed rl key now)) k =
           (if k = key then validEntries rl key now @ [\<lparr>timestamp_rl = now, count_rl = 1\<rparr>]
            else entries_of rl k)"
  using assms by (simp add: isAllowed_def Let_def entries_of_def Map_get_set split: if_splits)

lemma isAllowed_rejected:
  assumes "\<not> fst (isAllowed rl key now)"
  shows "snd (isAllowed rl key now) = rl"
  using assms by (simp add: isAllowed_def Let_def split: if_splits)

lemma admissions_scenario:
  assumes "t1 \<le> t2" and "t2 \<le> t3" and "t3 < t1 + 1000" and "t1 + 1000 \<le> t4"
  shows "admissions (RateLimiter_new 2 1000) [(x, t1), (x, t2), (x, t3), (x, t4)]
           = [True, True, False, True]"
  using assms
  by (simp add: isAllowed_def validEntries_def entries_of_def Map_get_def Map_set_def
      totalRequests_def RateLimiter_new_def Let_def)

text \<open>
  C2.  Take any limiter state reached from a fresh limiter by any sequence of calls, any
  key and any clock reading.  The admission check keeps exactly the key's entries whose
  timestamp is newer than \<open>now - window\<close> (so every timestamp older than that is
  discarded); it admits exactly when the number of survivors is strictly below the limit;
  on admission the key's record becomes the survivors followed by the current timestamp
  and no other key changes; on rejection the limiter is left as it was.  With limit 2
  and window 1000, three checks of one key inside one window answer true, true, false, and
  a check made once the window of the first admission has elapsed answers true.
\<close>

theorem isAllowed_sliding_window:
  fixes maxReq win now :: int and calls :: "limiter_call list" and key :: string
  defines "rl \<equiv> limiter_run (RateLimiter_new maxReq win) calls"
  defines "survivors \<equiv> filter (\<lambda>e. now - win < timestamp_rl e) (entries_of rl key)"
  shows "(\<forall>e \<in> set (entries_of rl key). timestamp_rl e < now - win \<longrightarrow> e \<notin> set survivors)
       \<and> fst (isAllowed rl key now) = (int (length survivors) < maxReq)
       \<and> (fst (isAllowed rl key now) \<longrightarrow>
            entries_of (snd (isAllowed rl key now)) key
              = survivors @ [\<lparr>timestamp_rl = now, count_rl = 1\<rparr>]
            \<and> (\<forall>k. k \<noteq> key \<longrightarrow> entries_of (snd (isAllowed rl key now)) k = entries_of rl k))
       \<and> (\<not> fst (isAllowed rl key now) \<longrightarrow> snd (isAllowed rl key now) = rl)
       \<and> (ta \<le> tb \<and> tb \<le> tc \<and> tc < ta + 1000 \<and> ta + 1000 \<le> td \<longrightarrow>
            admissions (RateLimiter_new 2 1000) [(x, ta), (x, tb), (x, tc), (x, td)]
              = [True, True, False, True])"
proof -
  have cfg: "maxRequests rl = maxReq" "windowMs rl = win"
    using limiter_run_config [of "RateLimiter_new maxReq win" calls]
    by (simp_all add: rl_def RateLimiter_new_def)
  have uc: "unit_counts rl"
    unfolding rl_def by (rule unit_counts_run [OF unit_counts_new])
  have surv: "validEntries rl key now = survivors"
    by (simp add: validEntries_def survivors_def cfg)
  have a: "\<forall>e \<in> set (entries_of rl key). timestamp_rl e < now - win \<longrightarrow> e \<notin> set survivors"
    by (auto simp: survivors_def)
  have b: "fst (isAllowed rl key now) = (int (length survivors) < maxReq)"
    using isAllowed_decision [OF uc, of key now] by (simp add: surv cfg)
  have c: "fst (isAllowed rl key now) \<longrightarrow>
            entries_of (snd (isAllowed rl key now)) key
              = survivors @ [\<lparr>timestamp_rl = now, count_rl = 1\<rparr>]
            \<and> (\<forall>k. k \<noteq> key \<longrightarrow> entries_of (snd (isAllowed rl key now)) k = entries_of rl k)"
    by (simp add: isAllowed_admitted surv)
  have d: "\<not> fst (isAllowed rl key now) \<longrightarrow> snd (isAllowed rl key now) = rl"
    by (simp add: isAllowed_rejected)
  have e: "ta \<le> tb \<and> tb \<le> tc \<and> tc < ta + 1000 \<and> ta + 1000 \<le> td \<longrightarrow>
            admissions (RateLimiter_new 2 1000) [(x, ta), (x, tb), (x, tc), (x, td)]
              = [True, True, False, True]"
    using admissions_scenario [of ta tb tc td x] by blast
  from a b c d e show ?thesis by blast
qed

theorem isAllowed_sliding_window_witness:
  "\<not> fst (isAllowed (limiter_run (RateLimiter_new 2 1000) [IsAllowed ''x'' 0, IsAllowed ''x'' 10])
            ''x'' 20)
   \<and> snd (isAllowed (limiter_run (RateLimiter_new 2 1000) [IsAllowed ''x'' 0, IsAllowed ''x'' 10])
            ''x'' 20)
       = limiter_run (RateLimiter_new 2 1000) [IsAllowed ''x'' 0, IsAllowed ''x'' 10]
   \<and> fst (isAllowed (limiter_run (RateLimiter_new 2 1000) [IsAllowed ''x'' 0]) ''x'' 1000)
   \<and> entries_of (snd (isAllowed (limiter_run (RateLimiter_new 2 1000) [IsAllowed ''x'' 0])
                        ''x'' 1000)) ''x''
       = [\<lparr>timestamp_rl = 1000, count_rl = 1\<rparr>]
   \<and> admissions (RateLimiter_new 2 1000) [(''x'', 0), (''x'', 10), (''x'', 20), (''x'', 1000)]
       = [True, True, False, True]"
proof -
  let ?full = "limiter_run (RateLimiter_new 2 1000) [IsAllowed ''x'' 0, IsAllowed ''x'' 10]"
  let ?one = "limiter_run (RateLimiter_new 2 1000) [IsAllowed ''x'' 0]"
  have full: "entries_of ?full ''x''
                = [\<lparr>timestamp_rl = 0, count_rl = 1\<rparr>, \<lparr>timestamp_rl = 10, count_rl = 1\<rparr>]"
    by (simp add: limiter_run_def isAllowed_def validEntries_def entries_of_def Map_get_def
        Map_set_def totalRequests_def RateLimiter_new_def Let_def)
  have one: "entries_of ?one ''x'' = [\<lparr>timestamp_rl = 0, count_rl = 1\<rparr>]"
    by (simp add: limiter_run_def isAllowed_def validEntries_def entries_of_def Map_get_def
        Map_set_def totalRequests_def RateLimiter_new_def Let_def)
  have times: "(0::int) \<le> 10 \<and> (10::int) \<le> 20 \<and> (20::int) < 0 + 1000 \<and> (0::int) + 1000 \<le> 1000"
    by simp
  note rejected = isAllowed_sliding_window
    [where maxReq = 2 and win = 1000 and now = 20 and key = "''x''"
       and calls = "[IsAllowed ''x'' 0, IsAllowed ''x'' 10]"
       and ta = 0 and tb = 10 and tc = 20 and td = 1000 and x = "''x''"]
  note admitted = isAllowed_sliding_window
    [where maxReq = 2 and win = 1000 and now = 1000 and key = "''x''"
       and calls = "[IsAllowed ''x'' 0]"
       and ta = 0 and tb = 10 and tc = 20 and td = 1000 and x = "''x''"]
  from rejected have r: "\<not> fst (isAllowed ?full ''x'' 20)"
    by (simp add: full)
  from admitted have a: "fst (isAllowed ?one ''x'' 1000)"
    by (simp add: one)
  from rejected r have r2: "snd (isAllowed ?full ''x'' 20) = ?full"
    by blast
  from admitted a have a2: "entries_of (snd (isAllowed ?one ''x'' 1000)) ''x''
       = [\<lparr>timestamp_rl = 1000, count_rl = 1\<rparr>]"
    by (simp add: one)
  from rejected times have s: "admissions (RateLimiter_new 2 1000)
       [(''x'', 0), (''x'', 10), (''x'', 20), (''x'', 1000)] = [True, True, False, True]"
    by blast
  from r r2 a a2 s show ?thesis by blast
qed

lemma entries_of_within_limit:
  assumes "within_limit rl"
  shows "int (length (entries_of rl key)) \<le> max 0 (maxRequests rl)"
proof (cases "Map_get (requests rl) key")
  case None
  then show ?thesis by (simp add: entries_of_def)
next
  case (Some es)
  then have "(key, es) \<in> set (requests rl)"
    by (simp add: Map_get_def map_of_SomeD)
  with assms Some show ?thesis unfolding within_limit_def entries_of_def by auto
qed

lemma within_limit_isAllowed:
  assumes "within_limit rl" and "unit_counts rl"
  shows "within_limit (snd (isAllowed rl key now))"
proof (cases "fst (isAllowed rl key now)")
  case False
  with assms(1) show ?thesis by (simp add: isAllowed_rejected)
next
  case True
  let ?es = "validEntries rl key now @ [\<lparr>timestamp_rl = now, count_rl = 1\<rparr>]"
  from True have eq: "requests (snd (isAllowed rl key now)) = Map_set (requests rl) key ?es"
    and cfg: "maxRequests (snd (isAllowed rl key now)) = maxRequests rl"
    by (simp_all add: isAllowed_def Let_def split: if_splits)
  from True isAllowed_decision [OF assms(2), of key now]
  have new: "int (length ?es) \<le> max 0 (maxRequests rl)" by simp
  show ?thesis
    unfolding within_limit_def eq cfg
  proof (clarify)
    fix k es
    assume "(k, es) \<in> set (Map_set (requests rl) key ?es)"
    then have "(k, es) = (key, ?es) \<or> (k, es) \<in> set (requests rl)"
      using set_Map_set [of "requests rl" key ?es] by auto
    then show "int (length es) \<le> max 0 (maxRequests rl)"
    proof
      assume "(k, es) = (key, ?es)"
      with new show ?thesis by simp
    next
      assume "(k, es) \<in> set (requests rl)"
      with assms(1) show ?thesis unfolding within_limit_def by blast
    qed
  qed
qed

lemma within_limit_step:
  assumes "within_limit rl" and "unit_counts rl"
  shows "within_limit (limiter_step rl c)"
proof (cases c)
  case (IsAllowed key now)
  with assms show ?thesis by (simp add: within_limit_isAllowed)
next
  case (Reset key)
  with assms(1) set_Map_delete [of "requests rl" key] show ?thesis
    by (auto simp: within_limit_def reset_def)
next
  case Clear
  then show ?thesis by (simp add: within_limit_def limiter_clear_def)
next
  case (CleanupExpired now)
  have "int (length (filter P es)) \<le> max 0 m" if "int (length es) \<le> max 0 m"
    for P and es :: "RateLimitEntry list" and m
    using that length_filter_le [of P es] by linarith
  with CleanupExpired assms(1) show ?thesis
    by (auto simp: within_limit_def limiter_cleanupExpired_def Let_def)
qed

lemma reachable_limiter:
  "unit_counts (limiter_run (RateLimiter_new m w) calls) \<and>
   within_limit (limiter_run (RateLimiter_new m w) calls)"
proof -
  have "unit_counts (limiter_run rl calls) \<and> within_limit (limiter_run rl calls)"
    if "unit_counts rl" and "within_limit rl" for rl
    using that unfolding limiter_run_def
    by (induction calls arbitrary: rl) (simp_all add: unit_counts_step within_limit_step)
  moreover have "within_limit (RateLimiter_new m w)"
    by (simp add: within_limit_def RateLimiter_new_def)
  ultimately show ?thesis using unit_counts_new by blast
qed

text \<open>
  Where both callers of \<open>getInfo\<close> use it, right after a rejected admission check, the
  stored record holds no entry outside the window, and the reset time is that of the
  oldest surviving entry.
\<close>

lemma resetTime_after_rejection:
  assumes "rl = limiter_run (RateLimiter_new m w) calls"
    and "\<not> fst (isAllowed rl key now)"
  shows "validEntries rl key now = entries_of rl key"
    and "getResetTime rl key now =
           (case validEntries rl key now of
              [] \<Rightarrow> now
            | e # es \<Rightarrow> timestamp_rl (oldestEntry e es) + w)"
proof -
  from reachable_limiter [of m w calls] assms(1)
  have uc: "unit_counts rl" and wl: "within_limit rl" by simp_all
  have cfg: "maxRequests rl = m" "windowMs rl = w"
    using limiter_run_config [of "RateLimiter_new m w" calls] assms(1)
    by (simp_all add: RateLimiter_new_def)
  from assms(2) isAllowed_decision [OF uc, of key now]
  have full: "maxRequests rl \<le> int (length (validEntries rl key now))" by simp
  have "length (validEntries rl key now) \<le> length (entries_of rl key)"
    by (simp add: validEntries_def)
  with full entries_of_within_limit [OF wl, of key]
  have "length (validEntries rl key now) = length (entries_of rl key)" by linarith
  then show same: "validEntries rl key now = entries_of rl key"
    unfolding validEntries_def Let_def by (metis filter_True length_filter_less linorder_neq_iff
        length_filter_le)
  show "getResetTime rl key now =
           (case validEntries rl key now of
              [] \<Rightarrow> now
            | e # es \<Rightarrow> timestamp_rl (oldestEntry e es) + w)"
    by (simp add: getResetTime_def same cfg split: list.splits)
qed

text \<open>
  C6.  \<open>getRemaining\<close> counts the entries inside the trailing window
  (\<open>remaining = max 0 (limit - count)\<close>), but \<open>getResetTime\<close> reads the stored
  record without the window filter that \<open>isAllowed\<close>, \<open>getRemaining\<close> and the sweep
  apply.  With limit 2 and window 1000, after admissions at 0 and 900, at time 1500 only
  the entry of 900 is inside the window and one request remains, so the oldest surviving
  entry ages out at 1900; the reported reset time is 1000, taken from the entry of 0 that
  has already left the window.
\<close>

theorem getInfo_resetTime_reads_unpruned_record:
  "validEntries (limiter_run (RateLimiter_new 2 1000) [IsAllowed ''x'' 0, IsAllowed ''x'' 900])
      ''x'' 1500 = [\<lparr>timestamp_rl = 900, count_rl = 1\<rparr>]
   \<and> remaining (getInfo (limiter_run (RateLimiter_new 2 1000)
                    [IsAllowed ''x'' 0, IsAllowed ''x'' 900]) ''x'' 1500) = 1
   \<and> resetTime (getInfo (limiter_run (RateLimiter_new 2 1000)
                    [IsAllowed ''x'' 0, IsAllowed ''x'' 900]) ''x'' 1500) = 1000
   \<and> resetTime (getInfo (limiter_run (RateLimiter_new 2 1000)
                    [IsAllowed ''x'' 0, IsAllowed ''x'' 900]) ''x'' 1500) \<noteq> 900 + 1000"
  by (simp add: limiter_run_def isAllowed_def validEntries_def entries_of_def Map_get_def
      Map_set_def totalRequests_def RateLimiter_new_def Let_def getInfo_def getRemaining_def
      getResetTime_def oldestEntry_def)

section \<open>Properties of the cache\<close>

lemma Map_keys_delete: "Map_keys (Map_delete m k) = removeAll k (Map_keys m)"
  by (simp add: Map_keys_def Map_delete_def delete_keys)

lemma Map_keys_set:
  "Map_keys (Map_set m k v) = (if k \<in> set (Map_keys m) then Map_keys m else Map_keys m @ [k])"
  by (simp add: Map_keys_def Map_set_def update_keys)

lemma Map_has_keys: "Map_has m k = (k \<in> set (Map_keys m))"
  by (simp add: Map_has_def Map_keys_def map_of_eq_None_iff)

lemma Map_get_keys: "(Map_get m k = None) = (k \<notin> set (Map_keys m))"
  by (simp add: Map_get_def Map_keys_def map_of_eq_None_iff)

lemma Map_size_keys: "Map_size m = int (length (Map_keys m))"
  by (simp add: Map_size_def Map_keys_def)

lemma cache_delete_keys:
  "Map_keys (cache (snd (cache_delete c k))) = removeAll k (Map_keys (cache c))"
  by (simp add: cache_delete_def Let_def Map_keys_delete Map_has_keys)

lemma cache_delete_order:
  "accessOrder (snd (cache_delete c k)) =
     (if k \<in> set (Map_keys (cache c)) then remove1 k (accessOrder c) else accessOrder c)"
  by (simp add: cache_delete_def Let_def Map_has_keys)

lemma cache_delete_get:
  "Map_get (cache (snd (cache_delete c k))) k' = (if k' = k then None else Map_get (cache c) k')"
proof (cases "Map_has (cache c) k")
  case True
  then show ?thesis by (simp add: cache_delete_def Let_def Map_get_delete)
next
  case False
  then have "Map_get (cache c) k = None" by (simp add: Map_has_def Map_get_def)
  with False show ?thesis by (simp add: cache_delete_def Let_def)
qed

lemma cache_delete_config:
  "maxSize (snd (cache_delete c k)) = maxSize c \<and> defaultTtl (snd (cache_delete c k)) = defaultTtl c"
  by (simp add: cache_delete_def Let_def)

lemma consistent_delete:
  assumes "consistent c"
  shows "consistent (snd (cache_delete c k))"
  using assms
  by (auto simp: consistent_def cache_delete_keys cache_delete_order distinct_removeAll)

lemma delete_absent_from_order:
  assumes "consistent c"
  shows "k \<notin> set (accessOrder (snd (cache_delete c k)))"
  using assms by (auto simp: consistent_def cache_delete_order)

lemma consistent_updateAccessOrder:
  assumes "consistent c" and "k \<in> set (Map_keys (cache c))"
  shows "consistent (updateAccessOrder c k)"
  using assms by (auto simp: consistent_def updateAccessOrder_def)


lemma evictLRU_get:
  assumes "k \<noteq> hd (accessOrder c)"
  shows "Map_get (cache (evictLRU c)) k = Map_get (cache c) k"
  using assms by (cases "accessOrder c") (simp_all add: evictLRU_def Let_def Map_get_delete)

lemma cache_set_stored:
  assumes "consistent c" and "1 \<le> maxSize c"
  shows "Map_get (cache (cache_set c key v t now)) key
           = Some \<lparr>data = v, timestamp = now, ttl = entryTtl c t\<rparr>"
proof -
  let ?c1 = "snd (cache_delete c key)"
  let ?e = "\<lparr>data = v, timestamp = now, ttl = entryTtl c t\<rparr>"
  let ?c2 = "?c1\<lparr>cache := Map_set (cache ?c1) key ?e, accessOrder := accessOrder ?c1 @ [key]\<rparr>"
  have c1: "consistent ?c1" by (rule consistent_delete [OF assms(1)])
  have notin: "key \<notin> set (accessOrder ?c1)" by (rule delete_absent_from_order [OF assms(1)])
  have stored: "Map_get (cache ?c2) key = Some ?e" by (simp add: Map_get_set)
  show ?thesis
  proof (cases "Map_size (cache ?c2) > maxSize ?c2")
    case False
    then show ?thesis using stored by (simp add: cache_set_def Let_def)
  next
    case True
    have "accessOrder ?c1 \<noteq> []"
    proof
      assume empty: "accessOrder ?c1 = []"
      with c1 have "Map_keys (cache ?c1) = []" by (simp add: consistent_def)
      then have "Map_size (cache ?c2) = 1" by (simp add: Map_size_keys Map_keys_set)
      with True assms(2) show False by (simp add: cache_delete_config)
    qed
    with notin have "key \<noteq> hd (accessOrder ?c2)"
      by (cases "accessOrder ?c1") auto
    then have "Map_get (cache (evictLRU ?c2)) key = Map_get (cache ?c2) key"
      by (rule evictLRU_get)
    with True stored show ?thesis by (simp add: cache_set_def Let_def)
  qed
qed

lemma cache_get_fresh:
  assumes "Map_get (cache c) k = Some e" and "\<not> isExpired e now"
  shows "fst (cache_get c k now) = Some (data e)"
  using assms by (simp add: cache_get_def)

lemma cache_get_expired:
  assumes "Map_get (cache c) k = Some e" and "isExpired e now"
  shows "fst (cache_get c k now) = None \<and> Map_get (cache (snd (cache_get c k now))) k = None"
  using assms by (simp add: cache_get_def cache_delete_get)


lemma consistent_new: "consistent (InMemoryCache_new m d)"
  by (simp add: consistent_def InMemoryCache_new_def Map_keys_def)

lemma evictLRU_get_cases:
  "Map_get (cache (evictLRU c)) k = None \<or> Map_get (cache (evictLRU c)) k = Map_get (cache c) k"
  by (cases "accessOrder c") (simp_all add: evictLRU_def Let_def Map_get_delete)

lemma cache_set_entry_cases:
  "Map_get (cache (cache_set c key v t now)) key = None \<or>
   Map_get (cache (cache_set c key v t now)) key
     = Some \<lparr>data = v, timestamp = now, ttl = entryTtl c t\<rparr>"
proof -
  let ?c1 = "snd (cache_delete c key)"
  let ?e = "\<lparr>data = v, timestamp = now, ttl = entryTtl c t\<rparr>"
  let ?c2 = "?c1\<lparr>cache := Map_set (cache ?c1) key ?e, accessOrder := accessOrder ?c1 @ [key]\<rparr>"
  have stored: "Map_get (cache ?c2) key = Some ?e" by (simp add: Map_get_set)
  show ?thesis
  proof (cases "Map_size (cache ?c2) > maxSize ?c2")
    case False
    then show ?thesis using stored by (simp add: cache_set_def Let_def)
  next
    case True
    then have "cache_set c key v t now = evictLRU ?c2" by (simp add: cache_set_def Let_def)
    with evictLRU_get_cases [of ?c2 key] stored show ?thesis by auto
  qed
qed

lemma cache_get_absent:
  assumes "Map_get (cache c) k = None"
  shows "cache_get c k now = (None, c)"
  using assms by (simp add: cache_get_def)

text \<open>
  C3, as the code has it.  On a cache whose bookkeeping is consistent and whose maximum
  size is at least 1, for every key, value and ttl > 0: \<open>set\<close> followed immediately by
  \<open>get\<close> returns the value, and so does every \<open>get\<close> made while the elapsed time is at
  most the ttl; once the elapsed time is strictly greater than the ttl, \<open>get\<close> returns
  absent and the entry is removed from the store.
\<close>

theorem set_then_get_within_ttl:
  assumes "consistent c" and "1 \<le> maxSize c" and "0 < t"
  shows "fst (cache_get (cache_set c k v (Some t) now) k now) = Some v
       \<and> (later - now \<le> t \<longrightarrow> fst (cache_get (cache_set c k v (Some t) now) k later) = Some v)
       \<and> (later - now > t \<longrightarrow>
            fst (cache_get (cache_set c k v (Some t) now) k later) = None
            \<and> Map_get (cache (snd (cache_get (cache_set c k v (Some t) now) k later))) k = None)"
proof -
  let ?e = "\<lparr>data = v, timestamp = now, ttl = t\<rparr>"
  from assms(3) have "entryTtl c (Some t) = t" by (simp add: entryTtl_def)
  with cache_set_stored [OF assms(1,2), of k v "Some t" now]
  have stored: "Map_get (cache (cache_set c k v (Some t) now)) k = Some ?e" by simp
  have "\<not> isExpired ?e now" using assms(3) by (simp add: isExpired_def)
  from cache_get_fresh [OF stored this]
  have a: "fst (cache_get (cache_set c k v (Some t) now) k now) = Some v" by simp
  have b: "later - now \<le> t \<longrightarrow> fst (cache_get (cache_set c k v (Some t) now) k later) = Some v"
  proof
    assume "later - now \<le> t"
    then have "\<not> isExpired ?e later" by (simp add: isExpired_def)
    from cache_get_fresh [OF stored this] show
      "fst (cache_get (cache_set c k v (Some t) now) k later) = Some v" by simp
  qed
  have c: "later - now > t \<longrightarrow>
            fst (cache_get (cache_set c k v (Some t) now) k later) = None
            \<and> Map_get (cache (snd (cache_get (cache_set c k v (Some t) now) k later))) k = None"
  proof
    assume "later - now > t"
    then have "isExpired ?e later" by (simp add: isExpired_def)
    from cache_get_expired [OF stored this] show
      "fst (cache_get (cache_set c k v (Some t) now) k later) = None
       \<and> Map_get (cache (snd (cache_get (cache_set c k v (Some t) now) k later))) k = None" .
  qed
  from a b c show ?thesis by blast
qed

theorem set_then_get_within_ttl_witness:
  "fst (cache_get (cache_set (InMemoryCache_new 1000 300000) ''links:get'' ''payload'' (Some 50) 0)
          ''links:get'' 10) = Some ''payload''
   \<and> fst (cache_get (cache_set (InMemoryCache_new 1000 300000) ''links:get'' ''payload'' (Some 50) 0)
          ''links:get'' 60) = None"
proof -
  have h: "consistent (InMemoryCache_new 1000 300000 :: string InMemoryCache)"
    by (rule consistent_new)
  have m: "1 \<le> maxSize (InMemoryCache_new 1000 300000 :: string InMemoryCache)"
    by (simp add: InMemoryCache_new_def)
  have t: "(0::int) < 50" by simp
  from set_then_get_within_ttl [OF h m t, of "''links:get''" "''payload''" 0 10]
       set_then_get_within_ttl [OF h m t, of "''links:get''" "''payload''" 0 60]
  show ?thesis by simp
qed

text \<open>
  C3 as stated fails at the boundary: an entry stored with ttl 50 at time 0 is still
  returned at time 50, when the elapsed time equals the ttl.
\<close>

theorem get_at_exactly_ttl_counterexample:
  "fst (cache_get (cache_set (InMemoryCache_new 1000 300000) ''links:get'' ''payload'' (Some 50) 0)
          ''links:get'' 50) = Some ''payload''"
  by (simp add: cache_get_def cache_set_def cache_delete_def InMemoryCache_new_def Let_def
      Map_has_def Map_get_def Map_set_def Map_size_def entryTtl_def isExpired_def
      updateAccessOrder_def)

text \<open>
  C5, as the code has it.  For every cache state, key and value, \<open>set\<close> with a negative
  ttl creates an entry that is already expired: a \<open>get\<close> of the key at any time not
  before the store returns absent and leaves no entry for the key, so the next
  \<open>get\<close> returns absent too.  A ttl of zero is falsy and selects the default ttl.
\<close>

theorem negative_ttl_immediately_expired:
  assumes "t < 0" and "now \<le> later"
  shows "fst (cache_get (cache_set c k v (Some t) now) k later) = None
       \<and> Map_get (cache (snd (cache_get (cache_set c k v (Some t) now) k later))) k = None
       \<and> fst (cache_get (snd (cache_get (cache_set c k v (Some t) now) k later)) k again) = None
       \<and> entryTtl c (Some 0) = defaultTtl c"
proof -
  let ?c' = "cache_set c k v (Some t) now"
  let ?e = "\<lparr>data = v, timestamp = now, ttl = t\<rparr>"
  from assms(1) have ttl: "entryTtl c (Some t) = t" by (simp add: entryTtl_def)
  have first: "fst (cache_get ?c' k later) = None
             \<and> Map_get (cache (snd (cache_get ?c' k later))) k = None"
  proof (cases "Map_get (cache ?c') k")
    case None
    then show ?thesis by (simp add: cache_get_absent)
  next
    case (Some e)
    with cache_set_entry_cases [of c k v "Some t" now] ttl
    have stored: "Map_get (cache ?c') k = Some ?e" by simp
    from assms have "isExpired ?e later" by (simp add: isExpired_def)
    from cache_get_expired [OF stored this] show ?thesis .
  qed
  then have "fst (cache_get (snd (cache_get ?c' k later)) k again) = None"
    by (simp add: cache_get_absent)
  with first show ?thesis by (simp add: entryTtl_def)
qed

theorem negative_ttl_immediately_expired_witness:
  "fst (cache_get (cache_set (InMemoryCache_new 1000 300000) ''k'' ''v'' (Some (- 1)) 0) ''k'' 0)
     = None"
proof -
  have t: "(- 1 :: int) < 0" and n: "(0::int) \<le> 0" by simp_all
  from negative_ttl_immediately_expired
         [OF t n, of "InMemoryCache_new 1000 300000" "''k''" "''v''" 0]
  show ?thesis by simp
qed

text \<open>
  C5 as stated fails for a ttl of zero: the entry gets the default ttl (300000 here) and
  is returned by later reads.
\<close>

theorem zero_ttl_counterexample:
  "fst (cache_get (cache_set (InMemoryCache_new 1000 300000) ''k'' ''v'' (Some 0) 0) ''k'' 10)
     = Some ''v''"
  by (simp add: cache_get_def cache_set_def cache_delete_def InMemoryCache_new_def Let_def
      Map_has_def Map_get_def Map_set_def Map_size_def entryTtl_def isExpired_def
      updateAccessOrder_def)

text \<open>
  C4.  \<open>evictLRU\<close> tests the shifted key for truthiness, so an oldest key that is the
  empty string is dropped from the recency list and kept in the store.  With maximum
  size 1, after \<open>set("", 1)\<close> and \<open>set("b", 2)\<close> the least recently used key
  \<^verbatim>\<open>""\<close> has not been evicted: both entries are stored.
\<close>

theorem overflow_keeps_empty_string_key:
  "Map_get (cache (cache_run (InMemoryCache_new 1 300000)
       [Set '''' (1::nat) None 0, Set ''b'' 2 None 1])) ''''
     = Some \<lparr>data = 1, timestamp = 0, ttl = 300000\<rparr>
   \<and> cache_keys (cache_run (InMemoryCache_new 1 300000)
       [Set '''' (1::nat) None 0, Set ''b'' 2 None 1]) = ['''', ''b'']
   \<and> evictionCount (cache_run (InMemoryCache_new 1 300000)
       [Set '''' (1::nat) None 0, Set ''b'' 2 None 1]) = 0"
  by (simp add: cache_run_def cache_set_def cache_delete_def InMemoryCache_new_def Let_def
      Map_has_def Map_get_def Map_set_def Map_size_def Map_delete_def Map_keys_def
      cache_keys_def entryTtl_def evictLRU_def)

text \<open>
  C10.  The same two calls leave the bookkeeping inconsistent: the store holds two
  entries under a maximum size of 1, and the recency list holds only one of the two
  stored keys.
\<close>

theorem bookkeeping_broken_by_empty_string_key:
  "cache_size (cache_run (InMemoryCache_new 1 300000)
       [Set '''' (1::nat) None 0, Set ''b'' 2 None 1]) = 2
   \<and> maxSize (cache_run (InMemoryCache_new 1 300000)
       [Set '''' (1::nat) None 0, Set ''b'' 2 None 1]) = 1
   \<and> accessOrder (cache_run (InMemoryCache_new 1 300000)
       [Set '''' (1::nat) None 0, Set ''b'' 2 None 1]) = [''b'']
   \<and> \<not> consistent (cache_run (InMemoryCache_new 1 300000)
       [Set '''' (1::nat) None 0, Set ''b'' 2 None 1])"
  by (simp add: cache_run_def cache_set_def cache_delete_def InMemoryCache_new_def Let_def
      Map_has_def Map_get_def Map_set_def Map_size_def Map_delete_def Map_keys_def
      cache_size_def entryTtl_def evictLRU_def consistent_def)

lemma evictLRU_well_kept:
  assumes "consistent c" and "[] \<notin> set (accessOrder c)" and "accessOrder c = oldest # rest"
  shows "consistent (evictLRU c)"
    and "accessOrder (evictLRU c) = rest"
    and "Map_keys (cache (evictLRU c)) = removeAll oldest (Map_keys (cache c))"
    and "cache_size (evictLRU c) = cache_size c - 1"
    and "maxSize (evictLRU c) = maxSize c"
proof -
  from assms have ne: "oldest \<noteq> []" by auto
  with assms(3) show ord: "accessOrder (evictLRU c) = rest"
    by (simp add: evictLRU_def Let_def)
  from ne assms(3) show keys: "Map_keys (cache (evictLRU c)) = removeAll oldest (Map_keys (cache c))"
    by (simp add: evictLRU_def Let_def Map_keys_delete)
  from assms(1,3) have mem: "oldest \<in> set (Map_keys (cache c))" and d: "distinct (Map_keys (cache c))"
    by (auto simp: consistent_def)
  from assms(1,3) show "consistent (evictLRU c)"
    unfolding consistent_def ord keys by (auto simp: distinct_removeAll)
  from d have "removeAll oldest (Map_keys (cache c)) = remove1 oldest (Map_keys (cache c))"
    by (simp add: distinct_remove1_removeAll)
  with mem have "length (removeAll oldest (Map_keys (cache c))) = length (Map_keys (cache c)) - 1"
    by (simp add: length_remove1)
  moreover from mem have "Map_keys (cache c) \<noteq> []" by auto
  ultimately show "cache_size (evictLRU c) = cache_size c - 1"
    by (cases "Map_keys (cache c)") (simp_all add: cache_size_def Map_size_keys keys)
  from assms(3) show "maxSize (evictLRU c) = maxSize c"
    by (simp add: evictLRU_def Let_def)
qed

lemma well_kept_new: "0 \<le> m \<Longrightarrow> well_kept (InMemoryCache_new m d)"
  by (simp add: well_kept_def consistent_new)
     (simp add: InMemoryCache_new_def cache_size_def Map_size_def)

lemma well_kept_delete:
  assumes "well_kept c"
  shows "well_kept (snd (cache_delete c k))"
proof -
  from assms have "consistent (snd (cache_delete c k))"
    by (simp add: well_kept_def consistent_delete)
  moreover from assms have "[] \<notin> set (accessOrder (snd (cache_delete c k)))"
    by (auto simp: well_kept_def cache_delete_order dest: notin_set_remove1)
  moreover have "cache_size (snd (cache_delete c k)) \<le> maxSize (snd (cache_delete c k))"
  proof -
    have "int (length (removeAll k (Map_keys (cache c)))) \<le> int (length (Map_keys (cache c)))"
      by simp
    also from assms have "\<dots> \<le> maxSize c"
      by (simp add: well_kept_def cache_size_def Map_size_keys)
    finally show ?thesis
      by (simp add: cache_size_def Map_size_keys cache_delete_keys cache_delete_config)
  qed
  ultimately show ?thesis by (simp add: well_kept_def)
qed

lemma well_kept_get:
  assumes "well_kept c"
  shows "well_kept (snd (cache_get c k now))"
proof (cases "Map_get (cache c) k")
  case None
  with assms show ?thesis by (simp add: cache_get_def)
next
  case (Some e)
  then have mem: "k \<in> set (Map_keys (cache c))"
    using Map_get_keys [of "cache c" k] by simp
  show ?thesis
  proof (cases "isExpired e now")
    case True
    with Some well_kept_delete [OF assms] show ?thesis by (simp add: cache_get_def)
  next
    case False
    from assms mem have "consistent (updateAccessOrder c k)"
      by (simp add: well_kept_def consistent_updateAccessOrder)
    moreover from assms mem have "k \<noteq> []"
      by (auto simp: well_kept_def consistent_def)
    with assms have "[] \<notin> set (accessOrder (updateAccessOrder c k))"
      by (auto simp: well_kept_def updateAccessOrder_def dest: notin_set_remove1)
    moreover from assms have "cache_size (updateAccessOrder c k) \<le> maxSize (updateAccessOrder c k)"
      by (simp add: well_kept_def updateAccessOrder_def cache_size_def)
    ultimately show ?thesis using Some False by (simp add: cache_get_def well_kept_def)
  qed
qed

lemma well_kept_has:
  assumes "well_kept c"
  shows "well_kept (snd (cache_has c k now))"
  using assms well_kept_delete [OF assms, of k]
  by (simp add: cache_has_def split: option.splits)

lemma well_kept_clear: "well_kept c \<Longrightarrow> 0 \<le> maxSize c \<Longrightarrow> well_kept (cache_clear c)"
  by (simp add: well_kept_def cache_clear_def consistent_def Map_keys_def cache_size_def Map_size_def)

lemma well_kept_deletes:
  "well_kept c \<Longrightarrow> well_kept (foldl (\<lambda>c' key. snd (cache_delete c' key)) c ks)"
  by (induction ks arbitrary: c) (simp_all add: well_kept_delete)

lemma well_kept_cleanupExpired: "well_kept c \<Longrightarrow> well_kept (cache_cleanupExpired c now)"
  by (simp add: cache_cleanupExpired_def Let_def well_kept_deletes)

lemma well_kept_set:
  assumes "well_kept c" and "key \<noteq> []"
  shows "well_kept (cache_set c key v t now)"
proof -
  let ?c1 = "snd (cache_delete c key)"
  let ?e = "\<lparr>data = v, timestamp = now, ttl = entryTtl c t\<rparr>"
  let ?c2 = "?c1\<lparr>cache := Map_set (cache ?c1) key ?e, accessOrder := accessOrder ?c1 @ [key]\<rparr>"
  from well_kept_delete [OF assms(1)] have c1: "well_kept ?c1" .
  from assms(1) have notin: "key \<notin> set (accessOrder ?c1)"
    by (simp add: well_kept_def delete_absent_from_order)
  have notkey: "key \<notin> set (Map_keys (cache ?c1))"
    by (simp add: cache_delete_keys)
  then have keys2: "Map_keys (Map_set (cache ?c1) key ?e) = Map_keys (cache ?c1) @ [key]"
    by (simp add: Map_keys_set)
  from c1 notin notkey have cons2: "consistent ?c2"
    by (auto simp: well_kept_def consistent_def keys2)
  from c1 assms(2) have ne2: "[] \<notin> set (accessOrder ?c2)"
    by (auto simp: well_kept_def)
  from c1 have size2: "cache_size ?c2 \<le> maxSize ?c2 + 1"
    by (simp add: well_kept_def cache_size_def Map_size_keys keys2)
  show ?thesis
  proof (cases "Map_size (cache ?c2) > maxSize ?c2")
    case False
    then have "cache_set c key v t now = ?c2" by (simp add: cache_set_def Let_def)
    moreover from False cons2 ne2 have "well_kept ?c2"
      by (simp add: well_kept_def cache_size_def)
    ultimately show ?thesis by simp
  next
    case True
    then have eq: "cache_set c key v t now = evictLRU ?c2" by (simp add: cache_set_def Let_def)
    obtain oldest rest where ord: "accessOrder ?c2 = oldest # rest"
      by (cases "accessOrder ?c2") auto
    note ev = evictLRU_well_kept [OF cons2 ne2 ord]
    from ne2 ord ev(2) have "[] \<notin> set (accessOrder (evictLRU ?c2))" by auto
    moreover from size2 ev(4,5) have "cache_size (evictLRU ?c2) \<le> maxSize (evictLRU ?c2)"
      by simp
    ultimately show ?thesis using ev(1) eq by (simp add: well_kept_def)
  qed
qed

lemma cache_step_maxSize: "maxSize (cache_step c call) = maxSize c"
proof -
  have del: "maxSize (foldl (\<lambda>c' key. snd (cache_delete c' key)) c' ks) = maxSize c'" for c' :: "'a InMemoryCache" and ks
    by (induction ks arbitrary: c') (simp_all add: cache_delete_config)
  show ?thesis
    by (cases call)
       (auto simp: cache_set_def cache_get_def cache_has_def cache_clear_def cache_delete_config
          cache_cleanupExpired_def del evictLRU_def updateAccessOrder_def Let_def
          split: option.splits list.splits)
qed

lemma well_kept_step:
  assumes "well_kept c" and "0 \<le> maxSize c" and "stores_nonempty_key call"
  shows "well_kept (cache_step c call)"
  using assms
  by (cases call)
     (simp_all add: well_kept_set well_kept_get well_kept_has well_kept_delete well_kept_clear
        well_kept_cleanupExpired)

lemma well_kept_run:
  assumes "well_kept c" and "0 \<le> maxSize c" and "\<forall>call \<in> set calls. stores_nonempty_key call"
  shows "well_kept (cache_run c calls)"
  using assms unfolding cache_run_def
  by (induction calls arbitrary: c) (simp_all add: well_kept_step cache_step_maxSize)

text \<open>
  What holds of the bookkeeping when no empty-string key is ever stored: after every
  sequence of calls on a fresh cache, the recency list holds exactly the stored keys,
  each once, and the store holds at most \<open>maxSize\<close> entries.
\<close>

lemma nonempty_keys_bookkeeping:
  assumes "0 \<le> m" and "\<forall>call \<in> set calls. stores_nonempty_key call"
  shows "consistent (cache_run (InMemoryCache_new m d) calls)"
    and "cache_size (cache_run (InMemoryCache_new m d) calls) \<le> m"
proof -
  have "well_kept (cache_run (InMemoryCache_new m d :: 'a InMemoryCache) calls)"
    by (rule well_kept_run [OF well_kept_new [OF assms(1)] _ assms(2)])
       (simp add: InMemoryCache_new_def assms(1))
  moreover have "maxSize (cache_run (InMemoryCache_new m d :: 'a InMemoryCache) calls) = m"
    unfolding cache_run_def
    by (induction calls rule: rev_induct) (simp_all add: cache_step_maxSize InMemoryCache_new_def)
  ultimately show "consistent (cache_run (InMemoryCache_new m d) calls)"
    and "cache_size (cache_run (InMemoryCache_new m d) calls) \<le> m"
    by (simp_all add: well_kept_def)
qed

text \<open>
  Eviction on overflow when the oldest key is not the empty string: storing a new key in
  a full cache removes exactly the head of the recency list, and a hit moves the key it
  reads to the end of that list.
\<close>

lemma overflow_evicts_oldest:
  assumes "consistent c" and "key \<notin> set (Map_keys (cache c))"
    and "cache_size c = maxSize c" and "accessOrder c = oldest # rest" and "oldest \<noteq> []"
  shows "Map_keys (cache (cache_set c key v t now)) = removeAll oldest (Map_keys (cache c)) @ [key]"
    and "accessOrder (cache_set c key v t now) = rest @ [key]"
proof -
  let ?e = "\<lparr>data = v, timestamp = now, ttl = entryTtl c t\<rparr>"
  let ?c2 = "c\<lparr>cache := Map_set (cache c) key ?e, accessOrder := accessOrder c @ [key]\<rparr>"
  from assms(2) have del: "snd (cache_delete c key) = c"
    by (simp add: cache_delete_def Let_def Map_has_keys)
  from assms(2) have keys2: "Map_keys (cache ?c2) = Map_keys (cache c) @ [key]"
    by (simp add: Map_keys_set)
  with assms(3) have "Map_size (cache ?c2) > maxSize ?c2"
    by (simp add: cache_size_def Map_size_keys)
  then have eq: "cache_set c key v t now = evictLRU ?c2"
    by (simp add: cache_set_def Let_def del)
  from assms(1,2,4) have "oldest \<noteq> key"
    by (auto simp: consistent_def)
  with assms(4,5) keys2 show
    "Map_keys (cache (cache_set c key v t now)) = removeAll oldest (Map_keys (cache c)) @ [key]"
    by (simp add: eq evictLRU_def Let_def Map_keys_delete)
  from assms(4,5) show "accessOrder (cache_set c key v t now) = rest @ [key]"
    by (simp add: eq evictLRU_def Let_def)
qed

lemma hit_moves_to_most_recent:
  assumes "Map_get (cache c) k = Some e" and "\<not> isExpired e now"
  shows "accessOrder (snd (cache_get c k now)) = remove1 k (accessOrder c) @ [k]"
  using assms by (simp add: cache_get_def updateAccessOrder_def)

section \<open>Properties of the API client\<close>

lemma request_rejected_unchanged:
  assumes "\<not> fst (isAllowed (globalRateLimiter w) (rateLimitKey config) (clock w))"
  shows "request rc w config =
           (Inl (App (new_RateLimitError (rateLimitMessage config
                   (getInfo (globalRateLimiter w) (rateLimitKey config) (clock w))))), w)"
proof -
  from assms have "isAllowed (globalRateLimiter w) (rateLimitKey config) (clock w)
                     = (False, globalRateLimiter w)"
    using isAllowed_rejected [of "globalRateLimiter w" "rateLimitKey config" "clock w"]
    by (simp add: prod_eq_iff)
  then show ?thesis by (simp add: request_def Let_def)
qed

text \<open>
  C7, as the code has it.  For every request descriptor and every state, when the limiter
  rejects the admission check the request fails at once with an error of class
  \<open>RateLimitError\<close>, status 429 and code \<^verbatim>\<open>RATE_LIMIT_ERROR\<close>, whose message names the
  method, the url and two fields of the limiter's info, the limit and the window size
  (which are the limiter's configuration); the remaining count and the reset time of the
  info are not carried.  Nothing is dispatched, and the cache, like the rest of the
  state, is left unchanged.
\<close>

theorem request_fails_fast_when_rate_limited:
  assumes "\<not> fst (isAllowed (globalRateLimiter w) (rateLimitKey config) (clock w))"
  shows "fst (request rc w config)
           = Inl (App \<lparr>error_class = RateLimitError,
                        message =
                          ''Rate limit exceeded for '' @ http_method config @ '' '' @ url config
                          @ ''. Limit: ''
                          @ show_int (limit (getInfo (globalRateLimiter w) (rateLimitKey config)
                                               (clock w)))
                          @ '' requests per ''
                          @ show_int (info_windowMs (getInfo (globalRateLimiter w)
                                               (rateLimitKey config) (clock w)))
                          @ ''ms.'',
                        statusCode = 429,
                        code = Some ''RATE_LIMIT_ERROR''\<rparr>)
       \<and> limit (getInfo (globalRateLimiter w) (rateLimitKey config) (clock w))
           = maxRequests (globalRateLimiter w)
       \<and> info_windowMs (getInfo (globalRateLimiter w) (rateLimitKey config) (clock w))
           = windowMs (globalRateLimiter w)
       \<and> sent (snd (request rc w config)) = sent w
       \<and> globalCache (snd (request rc w config)) = globalCache w
       \<and> snd (request rc w config) = w"
  by (simp add: request_rejected_unchanged [OF assms] new_RateLimitError_def
      rateLimitMessage_def getInfo_def)

theorem request_fails_fast_when_rate_limited_witness:
  "fst (request \<lparr>maxRetries = 3, retryDelay = 1000\<rparr>
         (snd (request \<lparr>maxRetries = 3, retryDelay = 1000\<rparr>
                 (World_new 1000 300000 1 60000 (always (Responded 200 JNull) 5))
                 \<lparr>http_method = ''POST'', url = ''/links'', params_json = []\<rparr>))
         \<lparr>http_method = ''POST'', url = ''/links'', params_json = []\<rparr>)
     = Inl (App \<lparr>error_class = RateLimitError,
                  message = ''Rate limit exceeded for POST /links. Limit: 1 requests per 60000ms.'',
                  statusCode = 429,
                  code = Some ''RATE_LIMIT_ERROR''\<rparr>)
   \<and> length (sent (snd (request \<lparr>maxRetries = 3, retryDelay = 1000\<rparr>
         (snd (request \<lparr>maxRetries = 3, retryDelay = 1000\<rparr>
                 (World_new 1000 300000 1 60000 (always (Responded 200 JNull) 5))
                 \<lparr>http_method = ''POST'', url = ''/links'', params_json = []\<rparr>))
         \<lparr>http_method = ''POST'', url = ''/links'', params_json = []\<rparr>))) = 1"
proof -
  let ?rc = "\<lparr>maxRetries = 3, retryDelay = 1000\<rparr>"
  let ?config = "\<lparr>http_method = ''POST'', url = ''/links'', params_json = []\<rparr>"
  let ?w = "snd (request ?rc (World_new 1000 300000 1 60000 (always (Responded 200 JNull) 5))
                  ?config)"
  have first: "requests (globalRateLimiter ?w)
                 = [(''api:POST:/links'', [\<lparr>timestamp_rl = 0, count_rl = 1\<rparr>])]
               \<and> maxRequests (globalRateLimiter ?w) = 1
               \<and> windowMs (globalRateLimiter ?w) = 60000
               \<and> clock ?w = 5 \<and> length (sent ?w) = 1"
    by (simp add: request_def makeRequestWithRetry.simps client_request_def World_new_def
        rateLimitKey_def isAllowed_def RateLimiter_new_def validEntries_def entries_of_def
        Map_get_def Map_set_def totalRequests_def toLowerCase_def lower_char_def Let_def)
  have rejected: "\<not> fst (isAllowed (globalRateLimiter ?w) (rateLimitKey ?config) (clock ?w))"
    by (simp add: first rateLimitKey_def isAllowed_def Let_def
        validEntries_def entries_of_def Map_get_def totalRequests_def)
  note fails = request_fails_fast_when_rate_limited [OF rejected, of ?rc]
  from fails first have a: "fst (request ?rc ?w ?config)
      = Inl (App \<lparr>error_class = RateLimitError,
                  message = ''Rate limit exceeded for POST /links. Limit: 1 requests per 60000ms.'',
                  statusCode = 429,
                  code = Some ''RATE_LIMIT_ERROR''\<rparr>)"
    by (simp add: show_int_def show_nat.simps digit_def)
  from fails first have b: "length (sent (snd (request ?rc ?w ?config))) = 1"
    by simp
  from a b show ?thesis by (rule conjI)
qed

text \<open>
  C7 as stated fails on what the error carries.  With limit 1 and window 60000, a
  rejection whose info has reset time 60000 and a rejection whose info has reset time
  60005 surface one and the same error: the reset time (and the remaining count) of the
  info is computed and dropped.
\<close>

theorem rate_limit_error_drops_reset_time_counterexample:
  "fst (request \<lparr>maxRetries = 3, retryDelay = 1000\<rparr>
         (snd (request \<lparr>maxRetries = 3, retryDelay = 1000\<rparr>
                 (World_new 1000 300000 1 60000 (always (Responded 200 JNull) 5))
                 \<lparr>http_method = ''POST'', url = ''/links'', params_json = []\<rparr>))
         \<lparr>http_method = ''POST'', url = ''/links'', params_json = []\<rparr>)
     = fst (request \<lparr>maxRetries = 3, retryDelay = 1000\<rparr>
         (snd (request \<lparr>maxRetries = 3, retryDelay = 1000\<rparr>
                 (snd (request \<lparr>maxRetries = 3, retryDelay = 1000\<rparr>
                         (World_new 1000 300000 1 60000 (always (Responded 200 JNull) 5))
                         \<lparr>http_method = ''POST'', url = ''/tags'', params_json = []\<rparr>))
                 \<lparr>http_method = ''POST'', url = ''/links'', params_json = []\<rparr>))
         \<lparr>http_method = ''POST'', url = ''/links'', params_json = []\<rparr>)
   \<and> resetTime (getInfo
         (globalRateLimiter (snd (request \<lparr>maxRetries = 3, retryDelay = 1000\<rparr>
                 (World_new 1000 300000 1 60000 (always (Responded 200 JNull) 5))
                 \<lparr>http_method = ''POST'', url = ''/links'', params_json = []\<rparr>)))
         ''api:POST:/links'' 5) = 60000
   \<and> resetTime (getInfo
         (globalRateLimiter (snd (request \<lparr>maxRetries = 3, retryDelay = 1000\<rparr>
                 (snd (request \<lparr>maxRetries = 3, retryDelay = 1000\<rparr>
                         (World_new 1000 300000 1 60000 (always (Responded 200 JNull) 5))
                         \<lparr>http_method = ''POST'', url = ''/tags'', params_json = []\<rparr>))
                 \<lparr>http_method = ''POST'', url = ''/links'', params_json = []\<rparr>)))
         ''api:POST:/links'' 10) = 60005
   \<and> clock (snd (request \<lparr>maxRetries = 3, retryDelay = 1000\<rparr>
                 (World_new 1000 300000 1 60000 (always (Responded 200 JNull) 5))
                 \<lparr>http_method = ''POST'', url = ''/links'', params_json = []\<rparr>)) = 5
   \<and> clock (snd (request \<lparr>maxRetries = 3, retryDelay = 1000\<rparr>
                 (snd (request \<lparr>maxRetries = 3, retryDelay = 1000\<rparr>
                         (World_new 1000 300000 1 60000 (always (Responded 200 JNull) 5))
                         \<lparr>http_method = ''POST'', url = ''/tags'', params_json = []\<rparr>))
                 \<lparr>http_method = ''POST'', url = ''/links'', params_json = []\<rparr>)) = 10
   \<and> fst (request \<lparr>maxRetries = 3, retryDelay = 1000\<rparr>
         (snd (request \<lparr>maxRetries = 3, retryDelay = 1000\<rparr>
                 (World_new 1000 300000 1 60000 (always (Responded 200 JNull) 5))
                 \<lparr>http_method = ''POST'', url = ''/links'', params_json = []\<rparr>))
         \<lparr>http_method = ''POST'', url = ''/links'', params_json = []\<rparr>)
     = Inl (App \<lparr>error_class = RateLimitError,
                  message = ''Rate limit exceeded for POST /links. Limit: 1 requests per 60000ms.'',
                  statusCode = 429,
                  code = Some ''RATE_LIMIT_ERROR''\<rparr>)"
  by (simp add: request_def makeRequestWithRetry.simps client_request_def World_new_def
      rateLimitKey_def rateLimitMessage_def new_RateLimitError_def isAllowed_def getInfo_def
      getRemaining_def getResetTime_def oldestEntry_def RateLimiter_new_def validEntries_def
      entries_of_def Map_get_def Map_set_def totalRequests_def toLowerCase_def lower_char_def
      Let_def show_int_def show_nat.simps digit_def)

text \<open>
  The classifier on a client error: an \<open>AuthenticationError\<close> for 401, a
  \<open>ValidationError\<close> for 400 and a plain \<open>LinkLibraryError\<close> for every other status in
  400..499 except 429, each carrying the status.
\<close>

lemma handleApiError_client_errors:
  assumes "400 \<le> s" and "s < 500" and "s \<noteq> 429"
  shows "error_class (handleApiError \<lparr>response = Some (s, d), err_code = c, err_message = m\<rparr>)
           = (if s = 401 then AuthenticationError
              else if s = 400 then ValidationError else LinkLibraryError)"
    and "statusCode (handleApiError \<lparr>response = Some (s, d), err_code = c, err_message = m\<rparr>) = s"
  using assms
  by (simp_all add: handleApiError_def new_AuthenticationError_def new_ValidationError_def
      new_LinkLibraryError_def)

text \<open>
  What the \<^verbatim>\<open>catch\<close> clause of \<open>makeRequestWithRetry\<close> receives is never the HTTP
  library's error: the response interceptor has replaced it by the classified error,
  which has no \<^verbatim>\<open>response\<close> property, and on such a value \<open>shouldRetry\<close> answers yes
  whatever the status was.
\<close>

lemma client_request_rejects_with_classified_error:
  assumes "fst (client_request w config) = Inl e"
  shows "\<exists>a. e = App a"
  using assms
  by (auto simp: client_request_def Let_def split: prod.splits outcome.splits if_splits)

lemma shouldRetry_classified_error: "shouldRetry (App a)"
  by (simp add: shouldRetry_def)

lemma client_request_sent:
  "length (sent (snd (client_request w config))) = length (sent w) + 1"
  by (simp add: client_request_def Let_def split: prod.splits outcome.splits)

lemma makeRequestWithRetry_dispatches:
  "length (sent w) < length (sent (snd (makeRequestWithRetry rc w config attempt)))"
proof (induction rc w config attempt rule: makeRequestWithRetry.induct)
  case (1 rc w config attempt)
  obtain res w1 where cr: "client_request w config = (res, w1)"
    by (cases "client_request w config")
  then have w1: "length (sent w1) = length (sent w) + 1"
    using client_request_sent [of w config] by simp
  show ?case
  proof (cases res)
    case (Inr d)
    with cr w1 show ?thesis by (simp add: makeRequestWithRetry.simps)
  next
    case (Inl error)
    show ?thesis
    proof (cases "int attempt \<le> maxRetries rc \<and> shouldRetry error")
      case False
      with cr Inl w1 show ?thesis by (auto simp: makeRequestWithRetry.simps)
    next
      case True
      let ?delay = "retryDelay rc * 2 ^ (attempt - 1)"
      from True have "length (sent (sleep w1 ?delay))
              < length (sent (snd (makeRequestWithRetry rc (sleep w1 ?delay) config (attempt + 1))))"
        using "1.IH" [OF cr [symmetric] Inl True refl] by simp
      moreover have "sent (sleep w1 ?delay) = sent w1"
        by (simp add: sleep_def)
      ultimately show ?thesis
        using cr Inl True w1 by (simp add: makeRequestWithRetry.simps [of rc w] Let_def)
    qed
  qed
qed

text \<open>
  So every answer with a status outside 200..299, a client error included, is dispatched
  again as soon as one retry is configured.
\<close>

lemma rejected_answer_is_redispatched:
  assumes "1 \<le> maxRetries rc"
    and "transport w (length (sent w)) = (Responded s d, duration)"
    and "\<not> (200 \<le> s \<and> s < 300)"
  shows "length (sent w) + 2 \<le> length (sent (snd (makeRequestWithRetry rc w config 1)))"
proof -
  obtain res w1 where cr: "client_request w config = (res, w1)"
    by (cases "client_request w config")
  from assms(2,3) cr obtain a where res: "res = Inl (App a)"
    by (auto simp: client_request_def Let_def)
  from cr have w1: "length (sent w1) = length (sent w) + 1"
    using client_request_sent [of w config] by simp
  let ?delay = "retryDelay rc * 2 ^ (1 - 1)"
  have "length (sent (sleep w1 ?delay))
          < length (sent (snd (makeRequestWithRetry rc (sleep w1 ?delay) config (1 + 1))))"
    by (rule makeRequestWithRetry_dispatches)
  moreover have "sent (sleep w1 ?delay) = sent w1"
    by (simp add: sleep_def)
  moreover from assms(1) cr res
  have "makeRequestWithRetry rc w config 1
          = makeRequestWithRetry rc (sleep w1 ?delay) config (1 + 1)"
    by (simp add: makeRequestWithRetry.simps [of rc w] shouldRetry_classified_error Let_def)
  ultimately show ?thesis using w1 by simp
qed

text \<open>
  C1.  A request answered with status 404 is retried: with three retries configured it is
  dispatched four times (after waits of 1000, 2000 and 4000 ms) before it fails, although
  \<open>shouldRetry\<close> is written not to retry a client error other than 429.  The error that
  surfaces is the classifier's plain \<open>LinkLibraryError\<close> with status 404.
\<close>

theorem not_found_is_retried:
  "length (sent (snd (request \<lparr>maxRetries = 3, retryDelay = 1000\<rparr>
       (World_new 1000 300000 100 60000 (always (Responded 404 JUndefined) 0))
       \<lparr>http_method = ''GET'', url = ''/links/1'', params_json = []\<rparr>))) = 4
   \<and> clock (snd (request \<lparr>maxRetries = 3, retryDelay = 1000\<rparr>
       (World_new 1000 300000 100 60000 (always (Responded 404 JUndefined) 0))
       \<lparr>http_method = ''GET'', url = ''/links/1'', params_json = []\<rparr>)) = 7000
   \<and> fst (request \<lparr>maxRetries = 3, retryDelay = 1000\<rparr>
       (World_new 1000 300000 100 60000 (always (Responded 404 JUndefined) 0))
       \<lparr>http_method = ''GET'', url = ''/links/1'', params_json = []\<rparr>)
     = Inl (App \<lparr>error_class = LinkLibraryError, message = ''HTTP 404 error'',
                 statusCode = 404, code = None\<rparr>)"
  by (simp add: request_def makeRequestWithRetry.simps client_request_def World_new_def sleep_def
      shouldRetry_def handleApiError_def new_LinkLibraryError_def message_or_def
      rateLimitKey_def isAllowed_def RateLimiter_new_def validEntries_def entries_of_def
      Map_get_def Map_set_def totalRequests_def cacheKey_def cache_get_def
      InMemoryCache_new_def toLowerCase_def lower_char_def Let_def
      show_int_def show_nat.simps digit_def)

section \<open>Properties of the authentication service\<close>

lemma client_request_auth_state: "auth_state (snd (client_request w config)) = auth_state w"
  by (simp add: client_request_def auth_state_def Let_def split: prod.splits outcome.splits)

lemma makeRequestWithRetry_auth_state:
  "auth_state (snd (makeRequestWithRetry rc w config attempt)) = auth_state w"
proof (induction rc w config attempt rule: makeRequestWithRetry.induct)
  case (1 rc w config attempt)
  obtain res w1 where cr: "client_request w config = (res, w1)"
    by (cases "client_request w config")
  then have w1: "auth_state w1 = auth_state w"
    using client_request_auth_state [of w config] by simp
  show ?case
  proof (cases res)
    case (Inr d)
    with cr w1 show ?thesis by (simp add: makeRequestWithRetry.simps)
  next
    case (Inl error)
    show ?thesis
    proof (cases "int attempt \<le> maxRetries rc \<and> shouldRetry error")
      case False
      with cr Inl w1 show ?thesis by (auto simp: makeRequestWithRetry.simps)
    next
      case True
      let ?delay = "retryDelay rc * 2 ^ (attempt - 1)"
      from True have "auth_state (snd (makeRequestWithRetry rc (sleep w1 ?delay) config (attempt + 1)))
                        = auth_state (sleep w1 ?delay)"
        using "1.IH" [OF cr [symmetric] Inl True refl] by simp
      moreover have "auth_state (sleep w1 ?delay) = auth_state w1"
        by (simp add: sleep_def auth_state_def)
      ultimately show ?thesis
        using cr Inl True w1 by (simp add: makeRequestWithRetry.simps [of rc w] Let_def)
    qed
  qed
qed

lemma makeRequestWithRetry_frame:
  "makeRequestWithRetry rc w config attempt = (res, w') \<Longrightarrow> auth_state w' = auth_state w"
  using makeRequestWithRetry_auth_state [of rc w config attempt] by simp

lemma request_auth_state: "auth_state (snd (request rc w config)) = auth_state w"
proof -
  have upd: "auth_state (w'\<lparr>globalRateLimiter := rl\<rparr>) = auth_state w'"
    "auth_state (w'\<lparr>globalCache := c\<rparr>) = auth_state w'" for w' :: World and rl c
    by (simp_all add: auth_state_def)
  show ?thesis
    by (auto simp: request_def Let_def upd split: prod.splits sum.splits if_splits
        dest!: makeRequestWithRetry_frame)
qed

lemma post_auth_state: "auth_state (snd (post rc w path)) = auth_state w"
  by (simp add: post_def request_auth_state)

lemma setToken_fields:
  "currentToken (setToken w token) = token"
  "currentUser (setToken w token) = currentUser w"
  "tokenRefreshTimer (setToken w token) = tokenRefreshTimer w"
  "pendingTimers (setToken w token) = pendingTimers w"
  "nextHandle (setToken w token) = nextHandle w"
  by (simp_all add: setToken_def apiClient_setToken_def Let_def)

lemma clearToken_fields:
  "currentToken (clearToken w) = JNull"
  "currentUser (clearToken w) = JNull"
  "tokenRefreshTimer (clearToken w) = None"
  "nextHandle (clearToken w) = nextHandle w"
  "pendingTimers (clearToken w) =
     (case tokenRefreshTimer w of
        None \<Rightarrow> pendingTimers w
      | Some h \<Rightarrow> filter (\<lambda>(h', due). h' \<noteq> h) (pendingTimers w))"
  by (simp_all add: clearToken_def apiClient_clearToken_def clearTimeout_def Let_def
      split: option.splits)

lemma isAuthenticated_clearToken: "\<not> isAuthenticated (clearToken w)"
  by (simp add: isAuthenticated_def clearToken_fields)

lemma isAuthenticated_setToken: "isAuthenticated (setToken w token) = isAuthenticated w"
  by (simp add: isAuthenticated_def setToken_fields)

lemma get_prop_Inr_not_null: "get_prop v name = Inr x \<Longrightarrow> v \<noteq> JNull"
  by (cases v) simp_all

text \<open>What \<open>refreshToken\<close> returns, in each of its two outcomes.\<close>

lemma refreshToken_failure:
  assumes "\<not> fst (refreshToken rc w)"
  shows "\<exists>w1. snd (refreshToken rc w) = clearToken w1
              \<and> tokenRefreshTimer w1 = tokenRefreshTimer w
              \<and> pendingTimers w1 = pendingTimers w
              \<and> nextHandle w1 = nextHandle w"
proof -
  obtain res w1 where p: "post rc w ''/auth/refresh'' = (res, w1)"
    by (cases "post rc w ''/auth/refresh''")
  from post_auth_state [of rc w "''/auth/refresh''"] p
  have frame: "tokenRefreshTimer w1 = tokenRefreshTimer w" "pendingTimers w1 = pendingTimers w"
    "nextHandle w1 = nextHandle w"
    by (simp_all add: auth_state_def)
  show ?thesis
  proof (cases res)
    case (Inl error)
    with p have "snd (refreshToken rc w) = clearToken w1" by (simp add: refreshToken_def)
    with frame show ?thesis by blast
  next
    case resp: (Inr resp)
    show ?thesis
    proof (cases "get_prop resp ''access_token''")
      case (Inl m)
      with p resp have "snd (refreshToken rc w) = clearToken w1" by (simp add: refreshToken_def)
      with frame show ?thesis by blast
    next
      case token: (Inr token)
      let ?w2 = "setToken w1 token"
      have frame2: "tokenRefreshTimer ?w2 = tokenRefreshTimer w" "pendingTimers ?w2 = pendingTimers w"
        "nextHandle ?w2 = nextHandle w"
        using frame by (simp_all add: setToken_fields)
      show ?thesis
      proof (cases "get_prop resp ''user''")
        case (Inl m)
        with p resp token have "snd (refreshToken rc w) = clearToken ?w2"
          by (simp add: refreshToken_def Let_def)
        with frame2 show ?thesis by blast
      next
        case user: (Inr user)
        let ?w3 = "?w2\<lparr>currentUser := user\<rparr>"
        have frame3: "tokenRefreshTimer ?w3 = tokenRefreshTimer w"
          "pendingTimers ?w3 = pendingTimers w" "nextHandle ?w3 = nextHandle w"
          using frame2 by simp_all
        show ?thesis
        proof (cases "get_prop user ''id''")
          case (Inl m)
          with p resp token user have "snd (refreshToken rc w) = clearToken ?w3"
            by (simp add: refreshToken_def Let_def)
          with frame3 show ?thesis by blast
        next
          case (Inr uid)
          with p resp token user have "fst (refreshToken rc w)"
            by (simp add: refreshToken_def Let_def)
          with assms show ?thesis by simp
        qed
      qed
    qed
  qed
qed

lemma refreshToken_success:
  assumes "fst (refreshToken rc w)"
  shows "\<exists>resp w1 token user.
           post rc w ''/auth/refresh'' = (Inr resp, w1)
         \<and> get_prop resp ''access_token'' = Inr token
         \<and> get_prop resp ''user'' = Inr user
         \<and> user \<noteq> JNull
         \<and> snd (refreshToken rc w) = (setToken w1 token)\<lparr>currentUser := user\<rparr>"
proof -
  obtain res w1 where p: "post rc w ''/auth/refresh'' = (res, w1)"
    by (cases "post rc w ''/auth/refresh''")
  from assms p show ?thesis
    by (auto simp: refreshToken_def Let_def split: sum.splits dest: get_prop_Inr_not_null)
qed

lemma refreshToken_request_failed:
  assumes "fst (post rc w ''/auth/refresh'') = Inl e"
  shows "\<not> fst (refreshToken rc w)"
  using assms by (cases "post rc w ''/auth/refresh''") (simp add: refreshToken_def)

lemma setupTokenRefresh_armed:
  "tokenRefreshTimer (setupTokenRefresh w) = Some (nextHandle w)
   \<and> timerArmed (setupTokenRefresh w)
   \<and> currentToken (setupTokenRefresh w) = currentToken w
   \<and> currentUser (setupTokenRefresh w) = currentUser w"
  by (simp add: setupTokenRefresh_def setTimeout_def clearTimeout_def timerArmed_def Let_def
      split: option.splits)

text \<open>
  C8.  Take any state in which \<open>h\<close> is the handle of the scheduled refresh and let the
  timer fire.  Whenever the refresh attempt fails (and it fails whenever the refresh
  request fails), the token and the user are cleared, \<open>isAuthenticated\<close> answers false,
  no timer is armed and no timer has been added.  Whenever it succeeds, the token is
  replaced by the \<open>access_token\<close> of the response and the user by its \<open>user\<close>,
  \<open>isAuthenticated\<close> answers true and a new refresh timer is armed.
\<close>

theorem scheduled_refresh_outcome:
  assumes "tokenRefreshTimer w = Some h"
  shows "(\<not> fst (refreshToken rc (clearTimeout w h)) \<longrightarrow>
            currentToken (refreshTimerFires rc w h) = JNull
          \<and> currentUser (refreshTimerFires rc w h) = JNull
          \<and> \<not> isAuthenticated (refreshTimerFires rc w h)
          \<and> tokenRefreshTimer (refreshTimerFires rc w h) = None
          \<and> \<not> timerArmed (refreshTimerFires rc w h)
          \<and> pendingTimers (refreshTimerFires rc w h)
              = filter (\<lambda>(h', due). h' \<noteq> h) (pendingTimers w))
       \<and> (fst (refreshToken rc (clearTimeout w h)) \<longrightarrow>
            (\<exists>resp. fst (post rc (clearTimeout w h) ''/auth/refresh'') = Inr resp
                  \<and> get_prop resp ''access_token'' = Inr (currentToken (refreshTimerFires rc w h))
                  \<and> get_prop resp ''user'' = Inr (currentUser (refreshTimerFires rc w h)))
          \<and> isAuthenticated (refreshTimerFires rc w h)
          \<and> timerArmed (refreshTimerFires rc w h))
       \<and> ((\<exists>e. fst (post rc (clearTimeout w h) ''/auth/refresh'') = Inl e) \<longrightarrow>
            \<not> fst (refreshToken rc (clearTimeout w h)))"
proof -
  let ?w0 = "clearTimeout w h"
  let ?w' = "refreshTimerFires rc w h"
  have w0: "tokenRefreshTimer ?w0 = Some h"
    "pendingTimers ?w0 = filter (\<lambda>(h', due). h' \<noteq> h) (pendingTimers w)"
    using assms by (simp_all add: clearTimeout_def)
  have failure: "\<not> fst (refreshToken rc ?w0) \<longrightarrow>
            currentToken ?w' = JNull \<and> currentUser ?w' = JNull \<and> \<not> isAuthenticated ?w'
          \<and> tokenRefreshTimer ?w' = None \<and> \<not> timerArmed ?w'
          \<and> pendingTimers ?w' = filter (\<lambda>(h', due). h' \<noteq> h) (pendingTimers w)"
  proof
    assume f: "\<not> fst (refreshToken rc ?w0)"
    then have eq: "?w' = snd (refreshToken rc ?w0)"
      by (cases "refreshToken rc ?w0") (simp add: refreshTimerFires_def Let_def)
    from refreshToken_failure [OF f] obtain w1 where
      w1: "snd (refreshToken rc ?w0) = clearToken w1" "tokenRefreshTimer w1 = tokenRefreshTimer ?w0"
        "pendingTimers w1 = pendingTimers ?w0"
      by blast
    from w1 w0 have "pendingTimers (clearToken w1) = filter (\<lambda>(h', due). h' \<noteq> h) (pendingTimers w)"
      by (simp add: clearToken_fields)
    then show "currentToken ?w' = JNull \<and> currentUser ?w' = JNull \<and> \<not> isAuthenticated ?w'
          \<and> tokenRefreshTimer ?w' = None \<and> \<not> timerArmed ?w'
          \<and> pendingTimers ?w' = filter (\<lambda>(h', due). h' \<noteq> h) (pendingTimers w)"
      unfolding eq w1(1)
      by (simp add: clearToken_fields isAuthenticated_clearToken timerArmed_def)
  qed
  have success: "fst (refreshToken rc ?w0) \<longrightarrow>
            (\<exists>resp. fst (post rc ?w0 ''/auth/refresh'') = Inr resp
                  \<and> get_prop resp ''access_token'' = Inr (currentToken ?w')
                  \<and> get_prop resp ''user'' = Inr (currentUser ?w'))
          \<and> isAuthenticated ?w' \<and> timerArmed ?w'"
  proof
    assume s: "fst (refreshToken rc ?w0)"
    then have eq: "?w' = setupTokenRefresh (snd (refreshToken rc ?w0))"
      by (cases "refreshToken rc ?w0") (simp add: refreshTimerFires_def Let_def)
    from refreshToken_success [OF s] obtain resp w1 token user where
      r: "post rc ?w0 ''/auth/refresh'' = (Inr resp, w1)"
         "get_prop resp ''access_token'' = Inr token" "get_prop resp ''user'' = Inr user"
         "user \<noteq> JNull"
         "snd (refreshToken rc ?w0) = (setToken w1 token)\<lparr>currentUser := user\<rparr>"
      by blast
    let ?w3 = "(setToken w1 token)\<lparr>currentUser := user\<rparr>"
    have tok: "currentToken (setupTokenRefresh ?w3) = token"
      using setupTokenRefresh_armed [of ?w3] by (simp add: setToken_fields)
    have usr: "currentUser (setupTokenRefresh ?w3) = user"
      using setupTokenRefresh_armed [of ?w3] by simp
    have armed: "timerArmed (setupTokenRefresh ?w3)"
      using setupTokenRefresh_armed [of ?w3] by blast
    from r(1,2,3) tok usr have "fst (post rc ?w0 ''/auth/refresh'') = Inr resp
                  \<and> get_prop resp ''access_token'' = Inr (currentToken ?w')
                  \<and> get_prop resp ''user'' = Inr (currentUser ?w')"
      unfolding eq r(5) by simp
    moreover from usr r(4) have "isAuthenticated ?w'"
      unfolding eq r(5) by (simp add: isAuthenticated_def)
    moreover from armed have "timerArmed ?w'"
      unfolding eq r(5) .
    ultimately show "(\<exists>resp. fst (post rc ?w0 ''/auth/refresh'') = Inr resp
                  \<and> get_prop resp ''access_token'' = Inr (currentToken ?w')
                  \<and> get_prop resp ''user'' = Inr (currentUser ?w'))
          \<and> isAuthenticated ?w' \<and> timerArmed ?w'"
      by blast
  qed
  have request_failed: "(\<exists>e. fst (post rc ?w0 ''/auth/refresh'') = Inl e) \<longrightarrow>
            \<not> fst (refreshToken rc ?w0)"
    using refreshToken_request_failed by blast
  from failure success request_failed show ?thesis by blast
qed

theorem scheduled_refresh_outcome_witness:
  "\<not> isAuthenticated (refreshTimerFires \<lparr>maxRetries = 0, retryDelay = 1000\<rparr>
         (setupTokenRefresh (World_new 1000 300000 100 60000 (always (Responded 500 JNull) 10))) 0)
   \<and> \<not> timerArmed (refreshTimerFires \<lparr>maxRetries = 0, retryDelay = 1000\<rparr>
         (setupTokenRefresh (World_new 1000 300000 100 60000 (always (Responded 500 JNull) 10))) 0)
   \<and> currentToken (refreshTimerFires \<lparr>maxRetries = 0, retryDelay = 1000\<rparr>
         (setupTokenRefresh (World_new 1000 300000 100 60000
            (always (Responded 200 (JObj [(''access_token'', JStr ''fresh''),
                                        (''user'', JObj [(''id'', JStr ''u1'')])])) 10))) 0)
       = JStr ''fresh''
   \<and> timerArmed (refreshTimerFires \<lparr>maxRetries = 0, retryDelay = 1000\<rparr>
         (setupTokenRefresh (World_new 1000 300000 100 60000
            (always (Responded 200 (JObj [(''access_token'', JStr ''fresh''),
                                        (''user'', JObj [(''id'', JStr ''u1'')])])) 10))) 0)"
proof -
  let ?rc = "\<lparr>maxRetries = 0, retryDelay = 1000\<rparr>"
  let ?resp = "JObj [(''access_token'', JStr ''fresh''), (''user'', JObj [(''id'', JStr ''u1'')])]"
  let ?bad = "setupTokenRefresh (World_new 1000 300000 100 60000 (always (Responded 500 JNull) 10))"
  let ?good = "setupTokenRefresh (World_new 1000 300000 100 60000 (always (Responded 200 ?resp) 10))"
  have armed_bad: "tokenRefreshTimer ?bad = Some 0"
    by (simp add: setupTokenRefresh_def setTimeout_def World_new_def Let_def)
  have armed_good: "tokenRefreshTimer ?good = Some 0"
    by (simp add: setupTokenRefresh_def setTimeout_def World_new_def Let_def)
  have post_bad: "\<exists>e. fst (post ?rc (clearTimeout ?bad 0) ''/auth/refresh'') = Inl e"
    by (simp add: post_def request_def makeRequestWithRetry.simps client_request_def
        setupTokenRefresh_def setTimeout_def clearTimeout_def World_new_def
        rateLimitKey_def isAllowed_def RateLimiter_new_def validEntries_def entries_of_def
        Map_get_def Map_set_def totalRequests_def toLowerCase_def lower_char_def Let_def)
  have post_good: "fst (post ?rc (clearTimeout ?good 0) ''/auth/refresh'') = Inr ?resp"
    by (simp add: post_def request_def makeRequestWithRetry.simps client_request_def
        setupTokenRefresh_def setTimeout_def clearTimeout_def World_new_def
        rateLimitKey_def isAllowed_def RateLimiter_new_def validEntries_def entries_of_def
        Map_get_def Map_set_def totalRequests_def toLowerCase_def lower_char_def Let_def)
  have refreshed: "fst (refreshToken ?rc (clearTimeout ?good 0))"
    using post_good
    by (cases "post ?rc (clearTimeout ?good 0) ''/auth/refresh''")
       (simp add: refreshToken_def Let_def)
  note bad = scheduled_refresh_outcome [OF armed_bad, of ?rc]
  note good = scheduled_refresh_outcome [OF armed_good, of ?rc]
  from bad post_bad have failed: "\<not> fst (refreshToken ?rc (clearTimeout ?bad 0))"
    by blast
  with bad have a: "\<not> isAuthenticated (refreshTimerFires ?rc ?bad 0)"
    and b: "\<not> timerArmed (refreshTimerFires ?rc ?bad 0)"
    by blast+
  from good refreshed obtain resp where
    r: "fst (post ?rc (clearTimeout ?good 0) ''/auth/refresh'') = Inr resp"
       "get_prop resp ''access_token'' = Inr (currentToken (refreshTimerFires ?rc ?good 0))"
    by blast
  from r(1) post_good have "resp = ?resp" by simp
  with r(2) have c: "currentToken (refreshTimerFires ?rc ?good 0) = JStr ''fresh''"
    by simp
  from good refreshed have d: "timerArmed (refreshTimerFires ?rc ?good 0)"
    by blast
  from a b c d show ?thesis by blast
qed

text \<open>
  C9.  \<open>isAuthenticated\<close> tests the current user, which \<open>setToken\<close> does not set.  A
  service constructed with a token in the environment holds the token as its live
  credential and still answers that it is not authenticated.
\<close>

theorem env_token_leaves_unauthenticated:
  "currentToken (AuthService_new
       (World_new 1000 300000 100 60000 (always (NoResponse None []) 0)) (Some ''secret-token''))
     = JStr ''secret-token''
   \<and> \<not> isAuthenticated (AuthService_new
       (World_new 1000 300000 100 60000 (always (NoResponse None []) 0)) (Some ''secret-token''))"
  by (simp add: AuthService_new_def setToken_def apiClient_setToken_def isAuthenticated_def
      World_new_def Let_def)

end
